theory Spec2Isabelle
  imports Main "HOL-Library.Word"
begin

unbundle bit_operations_syntax

section \<open>The virtual memory manager of main.c\<close>

text \<open>
  The program reads a text file of logical addresses, one decimal number per line,
  translates each to a physical address by demand paging from a backing store, and
  writes one line per address followed by the page-fault statistics.

  C \<open>int\<close> values are HOL integers: on a run that returns a result every address is
  in [0, 65536), every frame number and offset in [0, 256) and every counter at most the
  number of addresses, so nothing leaves the 32-bit range while the input has fewer
  than 2^31 lines. The places where the C program would leave the bounds of an array
  are explicit error results. A \<open>signed char\<close> and the \<open>unsigned char\<close> frame counter
  are 8-bit words (\<open>sint\<close> and \<open>uint\<close> read them).
\<close>

subsection \<open>Constants (lines 12 to 19)\<close>

text \<open>\<open>PHYSICAL_MEMORY_SIZE\<close> is \<open>PAGE_TABLE_SIZE * PAGE_SIZE\<close>, that is 65536.\<close>

abbreviation UNMAPPED :: int where "UNMAPPED \<equiv> - 1"
abbreviation FRAME_SIZE :: int where "FRAME_SIZE \<equiv> 256"
abbreviation FRAME_NUMBER_OFFSET_BITS :: nat where "FRAME_NUMBER_OFFSET_BITS \<equiv> 8"
abbreviation PAGE_NUMBER_OFFSET_BITS :: nat where "PAGE_NUMBER_OFFSET_BITS \<equiv> 8"
abbreviation PAGE_OFFSET_MASK :: int where "PAGE_OFFSET_MASK \<equiv> 255"
abbreviation PAGE_TABLE_SIZE :: int where "PAGE_TABLE_SIZE \<equiv> 256"
abbreviation PAGE_SIZE :: int where "PAGE_SIZE \<equiv> 256"
abbreviation PHYSICAL_MEMORY_SIZE :: int where "PHYSICAL_MEMORY_SIZE \<equiv> 65536"

subsection \<open>Data (lines 21 to 76)\<close>

type_synonym schar = "8 word"

record VirtualAddress =
  address :: int
  page_number :: int
  page_offset :: int

record PhysicalAddress =
  pa_address :: int
  frame_number :: int
  frame_offset :: int
  pa_value :: schar

record VirtualMemory =
  address_count :: int
  addresses :: "VirtualAddress list"

text \<open>
  \<open>space\<close> is the byte array of \<open>PHYSICAL_MEMORY_SIZE\<close> cells, a store from index to
  byte; the accesses check the index (\<open>space_read\<close>, \<open>space_write\<close>). \<open>pm_addresses\<close>
  is the array of PhysicalAddress structs with its allocated length; a cell that was
  never written is \<open>None\<close>.
\<close>

record PhysicalMemory =
  pm_address_count :: int
  space :: "nat \<Rightarrow> schar"
  next_available_frame_index :: "8 word"
  pm_addresses :: "PhysicalAddress option list"

record PageTable =
  map_pt :: "int list"
  fault_count :: int

text \<open>Where the C program would index outside an array, or overflow an \<open>int\<close>.\<close>

datatype error =
    PageTableIndexOutOfBounds int
  | SpaceIndexOutOfBounds int
  | AddressListIndexOutOfBounds int
  | VirtualAddressIndexOutOfBounds
  | AtoiOverflow
  | AddressCountOverflow

subsection \<open>create_page_table and create_physical_memory (lines 279 to 302)\<close>

text \<open>All \<open>PAGE_TABLE_SIZE\<close> entries are set to \<open>UNMAPPED\<close>, the fault counter to 0.\<close>

definition create_page_table :: PageTable where
  "create_page_table = \<lparr>map_pt = replicate (nat PAGE_TABLE_SIZE) UNMAPPED, fault_count = 0\<rparr>"

text \<open>
  \<open>malloc\<close> does not initialise the byte array: its first contents are the parameter
  \<open>garbage\<close>. The address list starts with room for one struct.
\<close>

definition create_physical_memory :: "(nat \<Rightarrow> schar) \<Rightarrow> PhysicalMemory" where
  "create_physical_memory garbage =
     \<lparr>pm_address_count = 0, space = garbage, next_available_frame_index = 0,
      pm_addresses = [None]\<rparr>"

subsection \<open>create_virtual_memory (lines 226 to 272)\<close>

text \<open>
  The C library's \<open>atoi\<close> in the C locale: leading white space is skipped, one sign is
  accepted, the decimal digits that follow are the value, anything else ends the
  number. A value outside the range of \<open>int\<close> is undefined in C and an error here.
\<close>

definition isspace :: "char \<Rightarrow> bool" where
  "isspace c = (c = CHR '' '' \<or> (9 \<le> (of_char c :: nat) \<and> (of_char c :: nat) \<le> 13))"

definition isdigit :: "char \<Rightarrow> bool" where
  "isdigit c = (48 \<le> (of_char c :: nat) \<and> (of_char c :: nat) \<le> 57)"

fun atoi_digits :: "int \<Rightarrow> string \<Rightarrow> int" where
  "atoi_digits acc [] = acc"
| "atoi_digits acc (c # cs) =
     (if isdigit c then atoi_digits (acc * 10 + (of_char c - 48)) cs else acc)"

definition atoi :: "string \<Rightarrow> error + int" where
  "atoi s =
     (let s1 = dropWhile isspace s;
          v = (case s1 of
                 [] \<Rightarrow> 0
               | c # r \<Rightarrow>
                   if c = CHR ''-'' then - atoi_digits 0 r
                   else if c = CHR ''+'' then atoi_digits 0 r
                   else atoi_digits 0 s1)
      in if - (2 ^ 31) \<le> v \<and> v < 2 ^ 31 then Inr v else Inl AtoiOverflow)"

text \<open>Lines 251 to 255: the address, its page number and its page offset.\<close>

definition new_address :: "int \<Rightarrow> VirtualAddress" where
  "new_address a =
     \<lparr>address = a,
      page_number = drop_bit PAGE_NUMBER_OFFSET_BITS a,
      page_offset = a AND PAGE_OFFSET_MASK\<rparr>"

text \<open>
  The loop of lines 238 to 269 over the characters of the input file, with the line
  buffer and the memory built so far. \<open>getc\<close>'s result is stored in a \<open>char\<close> before it is
  compared with \<open>EOF\<close>, so with a signed \<open>char\<close> the byte 255 ends the input as the end of
  the file does. A character other than the newline joins the line buffer; a newline
  turns the buffer into an address and empties it. What the buffer holds when the
  input ends is not used. \<open>atoi\<close> reads the buffer as the string of the characters of
  the line (the loop of lines 264 to 266 zeroes the buffer after each line, which ends
  that string). The address array starts empty.
\<close>

fun read_lines :: "string \<Rightarrow> string \<Rightarrow> VirtualMemory \<Rightarrow> error + VirtualMemory" where
  "read_lines [] buffer_line_chars vm = Inr vm"
| "read_lines (buffer_char # rest) buffer_line_chars vm =
     (if buffer_char = CHR 0xFF then Inr vm
      else if buffer_char \<noteq> CHR 0x0A then
        read_lines rest (buffer_line_chars @ [buffer_char]) vm
      else
        (case atoi buffer_line_chars of
           Inl e \<Rightarrow> Inl e
         | Inr a \<Rightarrow>
             if address_count vm = 2 ^ 31 - 1 then Inl AddressCountOverflow
             else read_lines rest []
                    (vm\<lparr>addresses := addresses vm @ [new_address a],
                        address_count := address_count vm + 1\<rparr>)))"

definition create_virtual_memory :: "string \<Rightarrow> error + VirtualMemory" where
  "create_virtual_memory file_input =
     read_lines file_input [] \<lparr>address_count = 0, addresses = []\<rparr>"

subsection \<open>map_addresses (lines 142 to 218)\<close>

text \<open>
  The backing store is the file's bytes. \<open>fseek\<close> to \<open>pos\<close> and \<open>fread\<close> of \<open>PAGE_SIZE\<close>
  bytes copy the bytes the file has from there into the read buffer; where the file
  ends early the buffer keeps what it held (the C program ignores both results).
\<close>

definition fread :: "schar list \<Rightarrow> nat \<Rightarrow> (nat \<Rightarrow> schar) \<Rightarrow> (nat \<Rightarrow> schar)" where
  "fread backing_store pos page_read_buffer =
     (\<lambda>i. if i < nat PAGE_SIZE \<and> pos + i < length backing_store
          then backing_store ! (pos + i) else page_read_buffer i)"

text \<open>Reading and writing a cell of \<open>space\<close>, an array of \<open>PHYSICAL_MEMORY_SIZE\<close> bytes.\<close>

definition space_read :: "(nat \<Rightarrow> schar) \<Rightarrow> int \<Rightarrow> error + schar" where
  "space_read sp i =
     (if 0 \<le> i \<and> i < PHYSICAL_MEMORY_SIZE then Inr (sp (nat i))
      else Inl (SpaceIndexOutOfBounds i))"

definition space_write :: "(nat \<Rightarrow> schar) \<Rightarrow> int \<Rightarrow> schar \<Rightarrow> error + (nat \<Rightarrow> schar)" where
  "space_write sp i v =
     (if 0 \<le> i \<and> i < PHYSICAL_MEMORY_SIZE then Inr (sp(nat i := v))
      else Inl (SpaceIndexOutOfBounds i))"

text \<open>Lines 180 to 182: the loop that copies the read buffer into the frame.\<close>

function copy_page ::
  "int \<Rightarrow> (nat \<Rightarrow> schar) \<Rightarrow> nat \<Rightarrow> (nat \<Rightarrow> schar) \<Rightarrow> error + (nat \<Rightarrow> schar)" where
  "copy_page pa_frame_number page_read_buffer i sp =
     (if int i < PAGE_SIZE then
        (case space_write sp (pa_frame_number * FRAME_SIZE + int i) (page_read_buffer i) of
           Inl e \<Rightarrow> Inl e
         | Inr sp' \<Rightarrow> copy_page pa_frame_number page_read_buffer (i + 1) sp')
      else Inr sp)"
  by pat_completeness auto
termination
  by (relation "measure (\<lambda>(f, b, i, sp). 256 - i)") auto

declare copy_page.simps [simp del]

text \<open>
  Lines 170 to 173: the frame allocator. The free frame is the counter's value, and the
  counter, an \<open>unsigned char\<close>, is incremented.
\<close>

definition allocate_frame :: "PhysicalMemory \<Rightarrow> int \<times> PhysicalMemory" where
  "allocate_frame pm =
     (uint (next_available_frame_index pm),
      pm\<lparr>next_available_frame_index := next_available_frame_index pm + 1\<rparr>)"

text \<open>
  Lines 166 to 186, the body of \<open>if (pa_frame_number == UNMAPPED)\<close>: count the fault,
  take a frame, read the page from the backing store into the buffer, copy the buffer
  into the frame and enter the frame in the page table. The page number is inside the
  table here (line 161 has read its entry).
\<close>

definition page_fault ::
  "schar list \<Rightarrow> int \<Rightarrow> PhysicalMemory \<Rightarrow> PageTable \<Rightarrow> (nat \<Rightarrow> schar) \<Rightarrow>
   error + (int \<times> PhysicalMemory \<times> PageTable \<times> (nat \<Rightarrow> schar))" where
  "page_fault backing_store va_page_number pm pt page_read_buffer =
     (let pt1 = pt\<lparr>fault_count := fault_count pt + 1\<rparr>;
          (pa_frame_number, pm1) = allocate_frame pm;
          buf1 = fread backing_store (nat (va_page_number * PAGE_SIZE)) page_read_buffer
      in case copy_page pa_frame_number buf1 0 (space pm1) of
           Inl e \<Rightarrow> Inl e
         | Inr sp \<Rightarrow>
             Inr (pa_frame_number, pm1\<lparr>space := sp\<rparr>,
                  pt1\<lparr>map_pt := (map_pt pt1)[nat va_page_number := pa_frame_number]\<rparr>,
                  buf1))"

text \<open>
  What one pass of the loop hands to the output: the virtual address, the
  PhysicalAddress struct it built (lines 193 to 205), and whether the pass went through
  the fault branch.
\<close>

record Translation =
  virtual :: VirtualAddress
  physical :: PhysicalAddress
  faulted :: bool

text \<open>The three numbers of the line printed at line 211.\<close>

definition output_line :: "Translation \<Rightarrow> int \<times> int \<times> int" where
  "output_line t =
     (address (virtual t), pa_address (physical t), sint (pa_value (physical t)))"

text \<open>
  Lines 193 to 204: the PhysicalAddress struct of a frame number, a frame offset and the
  byte found there; its address is the frame number shifted left, OR the offset.
\<close>

definition new_physical_address :: "int \<Rightarrow> int \<Rightarrow> schar \<Rightarrow> PhysicalAddress" where
  "new_physical_address pa_frame_number pa_frame_offset v =
     \<lparr>pa_address = push_bit FRAME_NUMBER_OFFSET_BITS pa_frame_number OR pa_frame_offset,
      frame_number = pa_frame_number,
      frame_offset = pa_frame_offset,
      pa_value = v\<rparr>"

text \<open>Lines 153 to 211: one pass of the loop.\<close>

definition translate ::
  "schar list \<Rightarrow> VirtualAddress \<Rightarrow> PhysicalMemory \<Rightarrow> PageTable \<Rightarrow> (nat \<Rightarrow> schar) \<Rightarrow>
   error + (PhysicalMemory \<times> PageTable \<times> (nat \<Rightarrow> schar) \<times> Translation)" where
  "translate backing_store va pm pt page_read_buffer =
     (let va_page_offset = page_offset va;
          va_page_number = page_number va
      in if va_page_number < 0 \<or> int (length (map_pt pt)) \<le> va_page_number
         then Inl (PageTableIndexOutOfBounds va_page_number)
         else
           (case (if map_pt pt ! nat va_page_number = UNMAPPED
                  then (case page_fault backing_store va_page_number pm pt page_read_buffer of
                          Inl e \<Rightarrow> Inl e
                        | Inr (f, pm1, pt1, buf1) \<Rightarrow> Inr (f, pm1, pt1, buf1, True))
                  else Inr (map_pt pt ! nat va_page_number, pm, pt, page_read_buffer, False)) of
              Inl e \<Rightarrow> Inl e
            | Inr (pa_frame_number, pm1, pt1, buf1, fault) \<Rightarrow>
                (let pa_frame_offset = va_page_offset in
                 case space_read (space pm1) (pa_frame_offset + pa_frame_number * PAGE_SIZE) of
                   Inl e \<Rightarrow> Inl e
                 | Inr v \<Rightarrow>
                     (let physical_address =
                            new_physical_address pa_frame_number pa_frame_offset v
                      in if pa_frame_number < 0
                            \<or> int (length (pm_addresses pm1)) \<le> pa_frame_number
                         then Inl (AddressListIndexOutOfBounds pa_frame_number)
                         else
                           Inr (pm1\<lparr>pm_addresses :=
                                       (pm_addresses pm1)[nat pa_frame_number :=
                                                            Some physical_address],
                                     pm_address_count := pm_address_count pm1 + 1\<rparr>,
                                pt1, buf1,
                                \<lparr>virtual = va, physical = physical_address,
                                 faulted = fault\<rparr>)))))"

text \<open>The loop of line 151 over the virtual addresses, in input order.\<close>

fun map_addresses_loop ::
  "schar list \<Rightarrow> VirtualAddress list \<Rightarrow> PhysicalMemory \<Rightarrow> PageTable \<Rightarrow> (nat \<Rightarrow> schar) \<Rightarrow>
   error + (PhysicalMemory \<times> PageTable \<times> (nat \<Rightarrow> schar) \<times> Translation list)" where
  "map_addresses_loop backing_store [] pm pt buf = Inr (pm, pt, buf, [])"
| "map_addresses_loop backing_store (va # vas) pm pt buf =
     (case translate backing_store va pm pt buf of
        Inl e \<Rightarrow> Inl e
      | Inr (pm1, pt1, buf1, t) \<Rightarrow>
          (case map_addresses_loop backing_store vas pm1 pt1 buf1 of
             Inl e \<Rightarrow> Inl e
           | Inr (pm2, pt2, buf2, ts) \<Rightarrow> Inr (pm2, pt2, buf2, t # ts)))"

text \<open>
  What the run writes: the translations in order, the fault count of line 215, and the
  two operands of the division of line 216 (the floating-point quotient itself is
  not computed here).
\<close>

record Report =
  translation_records :: "Translation list"
  page_faults :: int
  rate_dividend :: int
  rate_divisor :: int

text \<open>Line 148: \<open>realloc\<close> keeps the cells that fit and adds unwritten ones.\<close>

definition realloc :: "'a option list \<Rightarrow> nat \<Rightarrow> 'a option list" where
  "realloc xs n = take n xs @ replicate (n - length xs) None"

definition resize_addresses :: "PhysicalMemory \<Rightarrow> int \<Rightarrow> PhysicalMemory" where
  "resize_addresses pm n = pm\<lparr>pm_addresses := realloc (pm_addresses pm) (nat n)\<rparr>"

text \<open>
  \<open>map_addresses\<close>. The read buffer comes from \<open>malloc\<close>, so its first contents are the
  parameter \<open>page_read_buffer\<close>. The loop reads \<open>address_count\<close> cells of the address
  array.
\<close>

definition map_addresses ::
  "VirtualMemory \<Rightarrow> PhysicalMemory \<Rightarrow> PageTable \<Rightarrow> schar list \<Rightarrow> (nat \<Rightarrow> schar) \<Rightarrow>
   error + (PhysicalMemory \<times> PageTable \<times> Report)" where
  "map_addresses virtual_memory physical_memory page_table backing_store page_read_buffer =
     (let pm0 = resize_addresses physical_memory (address_count virtual_memory)
      in if int (length (addresses virtual_memory)) < address_count virtual_memory
         then Inl VirtualAddressIndexOutOfBounds
         else
           (case map_addresses_loop backing_store
                   (take (nat (address_count virtual_memory)) (addresses virtual_memory))
                   pm0 page_table page_read_buffer of
              Inl e \<Rightarrow> Inl e
            | Inr (pm, pt, buf, ts) \<Rightarrow>
                Inr (pm, pt,
                     \<lparr>translation_records = ts, page_faults = fault_count pt,
                      rate_dividend = fault_count pt,
                      rate_divisor = address_count virtual_memory\<rparr>)))"

text \<open>Lines 116 to 127 of \<open>main\<close>, once the three files are open.\<close>

definition main_run ::
  "string \<Rightarrow> schar list \<Rightarrow> (nat \<Rightarrow> schar) \<Rightarrow> (nat \<Rightarrow> schar) \<Rightarrow>
   error + (PhysicalMemory \<times> PageTable \<times> Report)" where
  "main_run file_input backing_store garbage page_read_buffer =
     (case create_virtual_memory file_input of
        Inl e \<Rightarrow> Inl e
      | Inr virtual_memory \<Rightarrow>
          map_addresses virtual_memory (create_physical_memory garbage) create_page_table
            backing_store page_read_buffer)"

text \<open>
  The virtual memory that \<open>create_virtual_memory\<close> builds from lines holding the given
  numbers, and the run on it.
\<close>

definition virtual_memory_of :: "int list \<Rightarrow> VirtualMemory" where
  "virtual_memory_of raws =
     \<lparr>address_count = int (length raws), addresses = map new_address raws\<rparr>"

definition run_addresses ::
  "int list \<Rightarrow> schar list \<Rightarrow> (nat \<Rightarrow> schar) \<Rightarrow> (nat \<Rightarrow> schar) \<Rightarrow>
   error + (PhysicalMemory \<times> PageTable \<times> Report)" where
  "run_addresses raws backing_store garbage page_read_buffer =
     map_addresses (virtual_memory_of raws) (create_physical_memory garbage) create_page_table
       backing_store page_read_buffer"

text \<open>
  The loop of that run stopped after its first \<open>n\<close> passes: the memory, the page table,
  the read buffer and the translations made so far.
\<close>

definition state_after ::
  "nat \<Rightarrow> int list \<Rightarrow> schar list \<Rightarrow> (nat \<Rightarrow> schar) \<Rightarrow> (nat \<Rightarrow> schar) \<Rightarrow>
   error + (PhysicalMemory \<times> PageTable \<times> (nat \<Rightarrow> schar) \<times> Translation list)" where
  "state_after n raws backing_store garbage page_read_buffer =
     map_addresses_loop backing_store (take n (addresses (virtual_memory_of raws)))
       (resize_addresses (create_physical_memory garbage)
          (address_count (virtual_memory_of raws)))
       create_page_table page_read_buffer"

text \<open>A memory of zero bytes, for the examples.\<close>

definition zero_bytes :: "nat \<Rightarrow> schar" where
  "zero_bytes = (\<lambda>i. 0)"

text \<open>A backing store of 65536 bytes, for the examples: byte 20 of page 66 is 42.\<close>

definition example_store :: "schar list" where
  "example_store = replicate 16916 0 @ [42] @ replicate 48619 0"


subsection \<open>The state the loop keeps\<close>

text \<open>
  The pages that have a frame, and what holds of the page table and the frame counter
  between two passes of the loop: the table has its 256 entries, the fault counter is
  the number of mapped pages, the frame counter is the fault counter as a byte, and
  every frame in the table is below the fault counter.
\<close>

definition mapped :: "PageTable \<Rightarrow> nat set" where
  "mapped pt = {p. p < length (map_pt pt) \<and> map_pt pt ! p \<noteq> UNMAPPED}"

definition table_inv :: "PhysicalMemory \<Rightarrow> PageTable \<Rightarrow> bool" where
  "table_inv pm pt \<longleftrightarrow>
     length (map_pt pt) = 256 \<and>
     fault_count pt = int (card (mapped pt)) \<and>
     next_available_frame_index pm = word_of_int (fault_count pt) \<and>
     (\<forall>p \<in> mapped pt. 0 \<le> map_pt pt ! p \<and> map_pt pt ! p < fault_count pt)"

text \<open>The byte array after the copy loop has filled frame \<open>f\<close> from the buffer.\<close>

definition loaded :: "int \<Rightarrow> (nat \<Rightarrow> schar) \<Rightarrow> (nat \<Rightarrow> schar) \<Rightarrow> (nat \<Rightarrow> schar)" where
  "loaded f buf sp =
     (\<lambda>a. if nat f * 256 \<le> a \<and> a < nat f * 256 + 256 then buf (a - nat f * 256) else sp a)"

section \<open>Properties of the model\<close>

subsection \<open>Bits and bytes\<close>

lemma mask255: "(255::int) = mask 8" by (simp add: mask_eq_exp_minus_1)

lemma and255_mod: "(x::int) AND 255 = x mod 256"
  unfolding mask255 by (simp add: take_bit_eq_mask [symmetric] take_bit_eq_mod)

lemma and255_range: "0 \<le> (x::int) AND 255" "(x::int) AND 255 < 256"
  by (simp_all add: and255_mod)

lemma push_or: "0 \<le> off \<Longrightarrow> off < 256 \<Longrightarrow> push_bit 8 (f::int) OR off = f * 256 + off"
proof -
  assume a: "0 \<le> off" "off < 256"
  have "off = take_bit 8 off" using a by (simp add: take_bit_eq_mod)
  then have "push_bit 8 f OR off = push_bit 8 f OR take_bit 8 off" by simp
  also have "\<dots> = push_bit 8 f + take_bit 8 off"
    by (rule disjunctive_add_eq_or[symmetric]) (rule bit_eqI, auto simp: bit_simps)
  finally show ?thesis using a by (simp add: push_bit_eq_mult take_bit_eq_mod)
qed

lemma copy_page_from:
  "0 \<le> f \<Longrightarrow> f < 256 \<Longrightarrow> i \<le> 256 \<Longrightarrow>
   copy_page f buf i sp =
     Inr (\<lambda>a. if nat f * 256 + i \<le> a \<and> a < nat f * 256 + 256 then buf (a - nat f * 256) else sp a)"
proof (induction f buf i sp rule: copy_page.induct)
  case (1 f buf i sp)
  show ?case
  proof (cases "i < 256")
    case True
    have c: "int i < 256" using True by simp
    have le: "i + 1 \<le> 256" using True by simp
    have w: "space_write sp (f * 256 + int i) (buf i) = Inr (sp(nat f * 256 + i := buf i))"
      using 1(2,3) True by (auto simp: space_write_def nat_add_distrib nat_mult_distrib)
    note ih = 1(1)[OF c w 1(2,3) le]
    have "copy_page f buf i sp = copy_page f buf (i + 1) (sp(nat f * 256 + i := buf i))"
      using c by (subst copy_page.simps) (simp add: w)
    also note ih
    finally show ?thesis
      using True by (auto intro!: ext)
  next
    case False
    with 1(4) have "i = 256" by simp
    then show ?thesis by (subst copy_page.simps) (auto intro!: ext)
  qed
qed


lemma page_fault_eq:
  "page_fault bs p pm pt buf =
     Inr (uint (next_available_frame_index pm),
          pm\<lparr>next_available_frame_index := next_available_frame_index pm + 1,
             space := loaded (uint (next_available_frame_index pm)) (fread bs (nat (p * 256)) buf) (space pm)\<rparr>,
          pt\<lparr>fault_count := fault_count pt + 1,
             map_pt := (map_pt pt)[nat p := uint (next_available_frame_index pm)]\<rparr>,
          fread bs (nat (p * 256)) buf)"
proof -
  have r: "0 \<le> uint (next_available_frame_index pm)" "uint (next_available_frame_index pm) < 256"
    using uint_lt2p[of "next_available_frame_index pm"] by simp_all
  show ?thesis
    using copy_page_from[OF r, of 0]
    by (simp add: page_fault_def allocate_frame_def Let_def loaded_def cong: if_cong)
qed

lemma translate_hit:
  assumes "0 \<le> page_number va" "page_number va < int (length (map_pt pt))"
    and "map_pt pt ! nat (page_number va) \<noteq> - 1"
  shows "translate bs va pm pt buf =
    (let f = map_pt pt ! nat (page_number va) in
     case space_read (space pm) (page_offset va + f * 256) of
       Inl e \<Rightarrow> Inl e
     | Inr v \<Rightarrow>
        if f < 0 \<or> int (length (pm_addresses pm)) \<le> f then Inl (AddressListIndexOutOfBounds f)
        else Inr (pm\<lparr>pm_addresses := (pm_addresses pm)[nat f := Some (new_physical_address f (page_offset va) v)],
                     pm_address_count := pm_address_count pm + 1\<rparr>, pt, buf,
                  \<lparr>virtual = va, physical = new_physical_address f (page_offset va) v, faulted = False\<rparr>))"
  using assms by (simp add: translate_def Let_def split: sum.splits)

lemma translate_fault:
  assumes "0 \<le> page_number va" "page_number va < int (length (map_pt pt))"
    and "map_pt pt ! nat (page_number va) = - 1"
  shows "translate bs va pm pt buf =
    (let f = uint (next_available_frame_index pm);
         buf1 = fread bs (nat (page_number va * 256)) buf;
         sp1 = loaded f buf1 (space pm) in
     case space_read sp1 (page_offset va + f * 256) of
       Inl e \<Rightarrow> Inl e
     | Inr v \<Rightarrow>
        if int (length (pm_addresses pm)) \<le> f then Inl (AddressListIndexOutOfBounds f)
        else Inr (pm\<lparr>next_available_frame_index := next_available_frame_index pm + 1,
                     space := sp1,
                     pm_addresses := (pm_addresses pm)[nat f := Some (new_physical_address f (page_offset va) v)],
                     pm_address_count := pm_address_count pm + 1\<rparr>,
                  pt\<lparr>fault_count := fault_count pt + 1, map_pt := (map_pt pt)[nat (page_number va) := f]\<rparr>,
                  buf1,
                  \<lparr>virtual = va, physical = new_physical_address f (page_offset va) v, faulted = True\<rparr>))"
  using assms by (simp add: translate_def Let_def page_fault_eq split: sum.splits)

lemma loop_append:
  "map_addresses_loop bs (xs @ ys) pm pt buf =
     (case map_addresses_loop bs xs pm pt buf of
        Inl e \<Rightarrow> Inl e
      | Inr (pm1, pt1, buf1, ts1) \<Rightarrow>
          (case map_addresses_loop bs ys pm1 pt1 buf1 of
             Inl e \<Rightarrow> Inl e
           | Inr (pm2, pt2, buf2, ts2) \<Rightarrow> Inr (pm2, pt2, buf2, ts1 @ ts2)))"
  by (induction xs arbitrary: pm pt buf) (auto split: sum.splits prod.splits)

lemma loop_length:
  "map_addresses_loop bs vas pm pt buf = Inr (pm', pt', buf', ts) \<Longrightarrow> length ts = length vas"
  by (induction vas arbitrary: pm pt buf ts) (auto split: sum.splits prod.splits)


lemma mapped_subset: "length (map_pt pt) = 256 \<Longrightarrow> mapped pt \<subseteq> {..<256}"
  by (auto simp: mapped_def)

lemma finite_mapped: "finite (mapped pt)"
  by (simp add: mapped_def)

lemma card_mapped_less:
  assumes "length (map_pt pt) = 256" "p < 256" "p \<notin> mapped pt"
  shows "card (mapped pt) < 256"
proof -
  have "mapped pt \<subseteq> {..<256} - {p}" using assms mapped_subset by auto
  then have "card (mapped pt) \<le> card ({..<256::nat} - {p})" by (intro card_mono) auto
  also have "\<dots> = 255" using assms(2) by simp
  finally show ?thesis by simp
qed

lemma mapped_update:
  "p < length (map_pt pt) \<Longrightarrow> f \<noteq> - 1 \<Longrightarrow>
   mapped (pt\<lparr>fault_count := c, map_pt := (map_pt pt)[p := f]\<rparr>) = insert p (mapped pt)"
  by (auto simp: mapped_def nth_list_update)

lemma translate_fault_facts:
  assumes tr: "translate bs va pm pt buf = Inr (pm', pt', buf', t)"
    and inv: "table_inv pm pt"
    and un: "nat (page_number va) \<notin> mapped pt"
  shows "0 \<le> page_number va \<and> page_number va < 256 \<and> fault_count pt < 256 \<and>
    faulted t \<and> virtual t = va \<and>
    physical t = new_physical_address (fault_count pt) (page_offset va)
                   (space pm' (nat (page_offset va + fault_count pt * 256))) \<and>
    0 \<le> page_offset va + fault_count pt * 256 \<and> page_offset va + fault_count pt * 256 < 65536 \<and>
    fault_count pt < int (length (pm_addresses pm)) \<and>
    buf' = fread bs (nat (page_number va * 256)) buf \<and>
    pt' = pt\<lparr>fault_count := fault_count pt + 1,
             map_pt := (map_pt pt)[nat (page_number va) := fault_count pt]\<rparr> \<and>
    space pm' = loaded (fault_count pt) buf' (space pm) \<and>
    next_available_frame_index pm' = next_available_frame_index pm + 1 \<and>
    pm_address_count pm' = pm_address_count pm + 1 \<and>
    length (pm_addresses pm') = length (pm_addresses pm)"
proof -
  from inv have len: "length (map_pt pt) = 256"
    and fc: "fault_count pt = int (card (mapped pt))"
    and nx: "next_available_frame_index pm = word_of_int (fault_count pt)"
    by (simp_all add: table_inv_def)
  have rng: "0 \<le> page_number va" "page_number va < 256"
    using tr len by (auto simp: translate_def Let_def split: if_splits)
  have unm: "map_pt pt ! nat (page_number va) = - 1"
    using un rng len by (auto simp: mapped_def)
  have "card (mapped pt) < 256"
    using card_mapped_less[OF len _ un] rng by simp
  then have fc256: "0 \<le> fault_count pt" "fault_count pt < 256" using fc by simp_all
  have ui: "uint (next_available_frame_index pm) = fault_count pt"
    using fc256 by (simp add: nx uint_word_of_int take_bit_eq_mod)
  show ?thesis
    using tr rng fc256
    by (simp add: translate_fault[OF rng(1) _ unm] len ui Let_def space_read_def
        split: if_splits) auto
qed


lemma translate_hit_facts:
  assumes tr: "translate bs va pm pt buf = Inr (pm', pt', buf', t)"
    and inv: "table_inv pm pt"
    and mp: "nat (page_number va) \<in> mapped pt"
  shows "0 \<le> page_number va \<and> page_number va < 256 \<and>
    \<not> faulted t \<and> virtual t = va \<and>
    physical t = new_physical_address (map_pt pt ! nat (page_number va)) (page_offset va)
                   (space pm (nat (page_offset va + map_pt pt ! nat (page_number va) * 256))) \<and>
    0 \<le> page_offset va + map_pt pt ! nat (page_number va) * 256 \<and>
    page_offset va + map_pt pt ! nat (page_number va) * 256 < 65536 \<and>
    map_pt pt ! nat (page_number va) < int (length (pm_addresses pm)) \<and>
    buf' = buf \<and> pt' = pt \<and> space pm' = space pm \<and>
    next_available_frame_index pm' = next_available_frame_index pm \<and>
    pm_address_count pm' = pm_address_count pm + 1 \<and>
    length (pm_addresses pm') = length (pm_addresses pm)"
proof -
  from inv have len: "length (map_pt pt) = 256" by (simp add: table_inv_def)
  have rng: "0 \<le> page_number va" "page_number va < 256"
    using tr len by (auto simp: translate_def Let_def split: if_splits)
  have m: "map_pt pt ! nat (page_number va) \<noteq> - 1"
    using mp by (simp add: mapped_def)
  show ?thesis
    using tr rng
    by (simp add: translate_hit[OF rng(1) _ m] len Let_def space_read_def
        split: if_splits) auto
qed

lemma translate_inv:
  assumes tr: "translate bs va pm pt buf = Inr (pm', pt', buf', t)"
    and inv: "table_inv pm pt"
  shows "table_inv pm' pt'"
proof (cases "nat (page_number va) \<in> mapped pt")
  case True
  from translate_hit_facts[OF tr inv True] inv show ?thesis
    by (auto simp: table_inv_def)
next
  case False
  note f = translate_fault_facts[OF tr inv False]
  let ?p = "nat (page_number va)"
  from inv have len: "length (map_pt pt) = 256"
    and fc: "fault_count pt = int (card (mapped pt))"
    and nx: "next_available_frame_index pm = word_of_int (fault_count pt)"
    and fr: "\<forall>p \<in> mapped pt. 0 \<le> map_pt pt ! p \<and> map_pt pt ! p < fault_count pt"
    by (auto simp: table_inv_def)
  have rng: "0 \<le> page_number va" "page_number va < 256" using f by blast+
  have p: "?p < length (map_pt pt)" using rng len by simp
  have fc0: "0 \<le> fault_count pt" using fc by simp
  then have ne: "fault_count pt \<noteq> - 1" by simp
  have pt': "pt' = pt\<lparr>fault_count := fault_count pt + 1, map_pt := (map_pt pt)[?p := fault_count pt]\<rparr>"
    using f by simp
  have mp: "mapped pt' = insert ?p (mapped pt)"
    unfolding pt' by (rule mapped_update[OF p ne])
  have card: "card (mapped pt') = Suc (card (mapped pt))"
    unfolding mp using False by (simp add: finite_mapped)
  have a: "length (map_pt pt') = 256" unfolding pt' using len by simp
  have b: "fault_count pt' = int (card (mapped pt'))" unfolding card using fc by (simp add: pt')
  have c: "next_available_frame_index pm' = word_of_int (fault_count pt')"
    using f nx by (simp add: pt')
  have d: "\<forall>q \<in> mapped pt'. 0 \<le> map_pt pt' ! q \<and> map_pt pt' ! q < fault_count pt'"
  proof
    fix q assume "q \<in> mapped pt'"
    then consider "q = ?p" | "q \<noteq> ?p" "q \<in> mapped pt" unfolding mp by auto
    then show "0 \<le> map_pt pt' ! q \<and> map_pt pt' ! q < fault_count pt'"
    proof cases
      case 1 then show ?thesis using p fc0 by (simp add: pt')
    next
      case 2 then show ?thesis using fr by (auto simp: pt')
    qed
  qed
  show ?thesis unfolding table_inv_def using a b c d by blast
qed

lemma translate_keeps:
  assumes tr: "translate bs va pm pt buf = Inr (pm', pt', buf', t)"
    and inv: "table_inv pm pt"
    and q: "q \<in> mapped pt"
  shows "q \<in> mapped pt'" "map_pt pt' ! q = map_pt pt ! q"
    "off < 256 \<Longrightarrow> space pm' (nat (map_pt pt ! q) * 256 + off) = space pm (nat (map_pt pt ! q) * 256 + off)"
proof -
  from inv have fr: "0 \<le> map_pt pt ! q \<and> map_pt pt ! q < fault_count pt"
    and len: "length (map_pt pt) = 256"
    using q by (auto simp: table_inv_def)
  have "q \<in> mapped pt' \<and> map_pt pt' ! q = map_pt pt ! q \<and>
    (off < 256 \<longrightarrow> space pm' (nat (map_pt pt ! q) * 256 + off) = space pm (nat (map_pt pt ! q) * 256 + off))"
  proof (cases "nat (page_number va) \<in> mapped pt")
    case True
    from translate_hit_facts[OF tr inv True] q show ?thesis by simp
  next
    case False
    note f = translate_fault_facts[OF tr inv False]
    have ne: "q \<noteq> nat (page_number va)" using q False by auto
    have ql: "q < 256" using q len by (simp add: mapped_def)
    have 1: "map_pt pt' ! q = map_pt pt ! q" using f ne by simp
    have 2: "q \<in> mapped pt'" using q f ne by (simp add: mapped_def)
    have 3: "off < 256 \<Longrightarrow> space pm' (nat (map_pt pt ! q) * 256 + off) = space pm (nat (map_pt pt ! q) * 256 + off)"
    proof -
      assume o: "off < 256"
      have "nat (map_pt pt ! q) < nat (fault_count pt)" using fr by simp
      then have "nat (map_pt pt ! q) * 256 + off < nat (fault_count pt) * 256" using o by arith
      then show ?thesis using f by (simp add: loaded_def)
    qed
    from 1 2 3 show ?thesis by simp
  qed
  then show "q \<in> mapped pt'" "map_pt pt' ! q = map_pt pt ! q"
    "off < 256 \<Longrightarrow> space pm' (nat (map_pt pt ! q) * 256 + off) = space pm (nat (map_pt pt ! q) * 256 + off)"
    by simp_all
qed

subsection \<open>The loop\<close>

lemma loop_inv:
  "map_addresses_loop bs vas pm pt buf = Inr (pm', pt', buf', ts) \<Longrightarrow> table_inv pm pt \<Longrightarrow>
   table_inv pm' pt'"
proof (induction vas arbitrary: pm pt buf ts)
  case Nil
  then show ?case by simp
next
  case (Cons va vas)
  from Cons.prems(1) obtain pm1 pt1 buf1 t ts1 where
    tr: "translate bs va pm pt buf = Inr (pm1, pt1, buf1, t)" and
    lp: "map_addresses_loop bs vas pm1 pt1 buf1 = Inr (pm', pt', buf', ts1)"
    by (auto split: sum.splits prod.splits)
  from Cons.IH[OF lp translate_inv[OF tr Cons.prems(2)]] show ?case .
qed

lemma loop_keeps:
  "map_addresses_loop bs vas pm pt buf = Inr (pm', pt', buf', ts) \<Longrightarrow> table_inv pm pt \<Longrightarrow>
   q \<in> mapped pt \<Longrightarrow>
   q \<in> mapped pt' \<and> map_pt pt' ! q = map_pt pt ! q \<and>
   (\<forall>off<256. space pm' (nat (map_pt pt ! q) * 256 + off) = space pm (nat (map_pt pt ! q) * 256 + off))"
proof (induction vas arbitrary: pm pt buf ts)
  case Nil
  then show ?case by simp
next
  case (Cons va vas)
  from Cons.prems(1) obtain pm1 pt1 buf1 t ts1 where
    tr: "translate bs va pm pt buf = Inr (pm1, pt1, buf1, t)" and
    lp: "map_addresses_loop bs vas pm1 pt1 buf1 = Inr (pm', pt', buf', ts1)"
    by (auto split: sum.splits prod.splits)
  note k = translate_keeps[OF tr Cons.prems(2,3)]
  from Cons.IH[OF lp translate_inv[OF tr Cons.prems(2)] k(1)] k(2,3)
  show ?case by simp
qed

lemma loop_nth:
  assumes lp: "map_addresses_loop bs vas pm pt buf = Inr (pm', pt', buf', ts)"
    and i: "i < length vas"
  shows "\<exists>pm1 pt1 buf1 ts1 pm2 pt2 buf2 t ts2.
    map_addresses_loop bs (take i vas) pm pt buf = Inr (pm1, pt1, buf1, ts1) \<and>
    translate bs (vas ! i) pm1 pt1 buf1 = Inr (pm2, pt2, buf2, t) \<and>
    map_addresses_loop bs (take (Suc i) vas) pm pt buf = Inr (pm2, pt2, buf2, ts1 @ [t]) \<and>
    map_addresses_loop bs (drop (Suc i) vas) pm2 pt2 buf2 = Inr (pm', pt', buf', ts2) \<and>
    ts = ts1 @ t # ts2 \<and> length ts1 = i \<and> ts ! i = t \<and> take i ts = ts1"
proof -
  have split: "vas = take i vas @ (vas ! i # drop (Suc i) vas)"
    using i by (simp add: id_take_nth_drop[symmetric])
  have "map_addresses_loop bs (take i vas @ (vas ! i # drop (Suc i) vas)) pm pt buf
          = Inr (pm', pt', buf', ts)"
    using lp split by simp
  then obtain pm1 pt1 buf1 ts1 pm2 pt2 buf2 t ts2 where
    a: "map_addresses_loop bs (take i vas) pm pt buf = Inr (pm1, pt1, buf1, ts1)" and
    b: "translate bs (vas ! i) pm1 pt1 buf1 = Inr (pm2, pt2, buf2, t)" and
    c: "map_addresses_loop bs (drop (Suc i) vas) pm2 pt2 buf2 = Inr (pm', pt', buf', ts2)" and
    d: "ts = ts1 @ t # ts2"
    unfolding loop_append by (auto split: sum.splits prod.splits)
  have l: "length ts1 = i" using loop_length[OF a] i by simp
  have e: "map_addresses_loop bs (take (Suc i) vas) pm pt buf = Inr (pm2, pt2, buf2, ts1 @ [t])"
    using a b i by (simp add: take_Suc_conv_app_nth loop_append)
  show ?thesis using a b c d e l by (auto simp: nth_append)
qed

lemma loop_take:
  assumes lp: "map_addresses_loop bs vas pm pt buf = Inr (pm', pt', buf', ts)"
  shows "\<exists>pm1 pt1 buf1.
    map_addresses_loop bs (take n vas) pm pt buf = Inr (pm1, pt1, buf1, take n ts) \<and>
    map_addresses_loop bs (drop n vas) pm1 pt1 buf1 = Inr (pm', pt', buf', drop n ts)"
proof -
  have "map_addresses_loop bs (take n vas @ drop n vas) pm pt buf = Inr (pm', pt', buf', ts)"
    using lp by simp
  then obtain pm1 pt1 buf1 ts1 ts2 where
    a: "map_addresses_loop bs (take n vas) pm pt buf = Inr (pm1, pt1, buf1, ts1)" and
    c: "map_addresses_loop bs (drop n vas) pm1 pt1 buf1 = Inr (pm', pt', buf', ts2)" and
    d: "ts = ts1 @ ts2"
    unfolding loop_append by (auto split: sum.splits prod.splits)
  have "length ts1 = length (take n vas)" using loop_length[OF a] .
  moreover have "length ts = length vas" using loop_length[OF lp] .
  ultimately have "take n ts = ts1" "drop n ts = ts2" using d by (auto simp: min_def)
  then show ?thesis using a c by blast
qed

lemma loop_pages:
  "map_addresses_loop bs vas pm pt buf = Inr (pm', pt', buf', ts) \<Longrightarrow> table_inv pm pt \<Longrightarrow>
   mapped pt' = mapped pt \<union> (\<lambda>v. nat (page_number v)) ` set vas \<and>
   (\<forall>v \<in> set vas. 0 \<le> page_number v \<and> page_number v < 256)"
proof (induction vas arbitrary: pm pt buf ts)
  case Nil
  then show ?case by simp
next
  case (Cons va vas)
  from Cons.prems(1) obtain pm1 pt1 buf1 t ts1 where
    tr: "translate bs va pm pt buf = Inr (pm1, pt1, buf1, t)" and
    lp: "map_addresses_loop bs vas pm1 pt1 buf1 = Inr (pm', pt', buf', ts1)"
    by (auto split: sum.splits prod.splits)
  note inv = Cons.prems(2)
  from inv have len: "length (map_pt pt) = 256" by (simp add: table_inv_def)
  have st: "mapped pt1 = insert (nat (page_number va)) (mapped pt) \<and>
            0 \<le> page_number va \<and> page_number va < 256"
  proof (cases "nat (page_number va) \<in> mapped pt")
    case True
    from translate_hit_facts[OF tr inv True] True show ?thesis by auto
  next
    case False
    note f = translate_fault_facts[OF tr inv False]
    have rng: "0 \<le> page_number va" "page_number va < 256" using f by blast+
    have fc: "fault_count pt \<noteq> - 1" using inv by (simp add: table_inv_def)
    have pt1: "pt1 = pt\<lparr>fault_count := fault_count pt + 1,
             map_pt := (map_pt pt)[nat (page_number va) := fault_count pt]\<rparr>" using f by blast
    have "mapped pt1 = insert (nat (page_number va)) (mapped pt)"
      unfolding pt1 by (rule mapped_update) (use rng len fc in simp_all)
    then show ?thesis using rng by simp
  qed
  from Cons.IH[OF lp translate_inv[OF tr inv]] st show ?case by auto
qed

lemma loop_faults:
  "map_addresses_loop bs vas pm pt buf = Inr (pm', pt', buf', ts) \<Longrightarrow> table_inv pm pt \<Longrightarrow>
   fault_count pt' = fault_count pt + int (length (filter faulted ts)) \<and>
   map (\<lambda>t. frame_number (physical t)) (filter faulted ts) =
     map (\<lambda>k. fault_count pt + int k) [0..<length (filter faulted ts)]"
proof (induction vas arbitrary: pm pt buf ts)
  case Nil
  then show ?case by auto
next
  case (Cons va vas)
  from Cons.prems(1) obtain pm1 pt1 buf1 t ts1 where
    tr: "translate bs va pm pt buf = Inr (pm1, pt1, buf1, t)" and
    lp: "map_addresses_loop bs vas pm1 pt1 buf1 = Inr (pm', pt', buf', ts1)" and
    ts: "ts = t # ts1"
    by (auto split: sum.splits prod.splits)
  note inv = Cons.prems(2)
  note ih = Cons.IH[OF lp translate_inv[OF tr inv]]
  show ?case
  proof (cases "nat (page_number va) \<in> mapped pt")
    case True
    note h = translate_hit_facts[OF tr inv True]
    have "\<not> faulted t" "pt1 = pt" using h by blast+
    then show ?thesis using ih ts by simp
  next
    case False
    note f = translate_fault_facts[OF tr inv False]
    have a: "faulted t" "frame_number (physical t) = fault_count pt"
      "fault_count pt1 = fault_count pt + 1"
      using f by (auto simp: new_physical_address_def)
    have "map (\<lambda>k. fault_count pt + int k) [0..<Suc (length (filter faulted ts1))] =
      fault_count pt # map (\<lambda>k. fault_count pt + 1 + int k) [0..<length (filter faulted ts1)]"
      by (simp add: upt_conv_Cons map_Suc_upt[symmetric] del: upt_Suc)
    then show ?thesis using ih ts a by simp
  qed
qed

subsection \<open>Runs that return a result\<close>

lemma card_mapped_le: "length (map_pt pt) = 256 \<Longrightarrow> card (mapped pt) \<le> 256"
proof -
  assume "length (map_pt pt) = 256"
  then have "card (mapped pt) \<le> card {..<256::nat}"
    by (intro card_mono mapped_subset) auto
  then show ?thesis by simp
qed

lemma translate_succeeds:
  assumes inv: "table_inv pm pt"
    and pg: "0 \<le> page_number va" "page_number va < 256"
    and off: "0 \<le> page_offset va" "page_offset va < 256"
    and cnt: "fault_count pt \<le> pm_address_count pm"
      "pm_address_count pm < int (length (pm_addresses pm))"
  shows "\<exists>pm' pt' buf' t. translate bs va pm pt buf = Inr (pm', pt', buf', t) \<and>
    fault_count pt' \<le> pm_address_count pm' \<and>
    pm_address_count pm' = pm_address_count pm + 1 \<and>
    length (pm_addresses pm') = length (pm_addresses pm)"
proof -
  from inv have len: "length (map_pt pt) = 256"
    and fc: "fault_count pt = int (card (mapped pt))"
    and nx: "next_available_frame_index pm = word_of_int (fault_count pt)"
    and fr: "\<forall>p \<in> mapped pt. 0 \<le> map_pt pt ! p \<and> map_pt pt ! p < fault_count pt"
    by (auto simp: table_inv_def)
  have p: "page_number va < int (length (map_pt pt))" using pg len by simp
  show ?thesis
  proof (cases "nat (page_number va) \<in> mapped pt")
    case True
    let ?f = "map_pt pt ! nat (page_number va)"
    have m: "?f \<noteq> - 1" using True by (simp add: mapped_def)
    have f: "0 \<le> ?f" "?f < fault_count pt" using fr True by auto
    have "fault_count pt \<le> 256" using fc card_mapped_le[OF len] by simp
    then have r: "0 \<le> page_offset va + ?f * 256" "page_offset va + ?f * 256 < 65536"
      using f off by auto
    have l: "?f < int (length (pm_addresses pm))" using f cnt by simp
    show ?thesis
      using r l f(1) cnt
      by (simp add: translate_hit[OF pg(1) p m] Let_def space_read_def)
  next
    case False
    have unm: "map_pt pt ! nat (page_number va) = - 1"
      using False pg len by (auto simp: mapped_def)
    have "card (mapped pt) < 256"
      using card_mapped_less[OF len _ False] pg by simp
    then have fc256: "0 \<le> fault_count pt" "fault_count pt < 256" using fc by simp_all
    have ui: "uint (next_available_frame_index pm) = fault_count pt"
      using fc256 by (simp add: nx uint_word_of_int take_bit_eq_mod)
    have r: "0 \<le> page_offset va + fault_count pt * 256"
      "page_offset va + fault_count pt * 256 < 65536"
      using fc256 off by auto
    show ?thesis
      using r cnt
      by (simp add: translate_fault[OF pg(1) p unm] ui Let_def space_read_def)
  qed
qed

lemma loop_succeeds:
  "table_inv pm pt \<Longrightarrow>
   \<forall>v \<in> set vas. 0 \<le> page_number v \<and> page_number v < 256 \<and>
                  0 \<le> page_offset v \<and> page_offset v < 256 \<Longrightarrow>
   fault_count pt \<le> pm_address_count pm \<Longrightarrow>
   pm_address_count pm + int (length vas) \<le> int (length (pm_addresses pm)) \<Longrightarrow>
   \<exists>pm' pt' buf' ts. map_addresses_loop bs vas pm pt buf = Inr (pm', pt', buf', ts)"
proof (induction vas arbitrary: pm pt buf)
  case Nil
  then show ?case by simp
next
  case (Cons va vas)
  have c: "pm_address_count pm < int (length (pm_addresses pm))" using Cons.prems(4) by simp
  from translate_succeeds[OF Cons.prems(1) _ _ _ _ Cons.prems(3) c, of va bs buf] Cons.prems(2)
  obtain pm1 pt1 buf1 t where
    tr: "translate bs va pm pt buf = Inr (pm1, pt1, buf1, t)" and
    a: "fault_count pt1 \<le> pm_address_count pm1" and
    b: "pm_address_count pm1 = pm_address_count pm + 1" and
    l: "length (pm_addresses pm1) = length (pm_addresses pm)"
    by auto
  have "\<exists>pm' pt' buf' ts. map_addresses_loop bs vas pm1 pt1 buf1 = Inr (pm', pt', buf', ts)"
    by (rule Cons.IH[OF translate_inv[OF tr Cons.prems(1)] _ a])
       (use Cons.prems(2,4) b l in auto)
  then show ?case using tr by auto
qed

lemma mapped_start: "mapped create_page_table = {}"
  by (auto simp: mapped_def create_page_table_def)

lemma start_inv: "table_inv (resize_addresses (create_physical_memory g) n) create_page_table"
  by (simp add: table_inv_def mapped_start)
     (simp add: create_page_table_def resize_addresses_def create_physical_memory_def)

lemma new_address_offset_range:
  "0 \<le> page_offset (new_address a)" "page_offset (new_address a) < 256"
  by (simp_all add: new_address_def and255_range)

lemma div_256_range:
  "(0 \<le> (a::int) \<and> a < 65536) = (0 \<le> a div 256 \<and> a div 256 < 256)"
  using div_mult_mod_eq[of a 256] pos_mod_bound[of 256 a] pos_mod_sign[of 256 a] by linarith

lemma new_address_range:
  "0 \<le> a \<Longrightarrow> a < 65536 \<Longrightarrow> 0 \<le> page_number (new_address a) \<and> page_number (new_address a) < 256"
  using div_256_range[of a] by (simp add: new_address_def drop_bit_eq_div)

lemma new_address_page_range:
  "0 \<le> page_number (new_address a) \<Longrightarrow> page_number (new_address a) < 256 \<Longrightarrow> 0 \<le> a \<and> a < 65536"
  using div_256_range[of a] by (simp add: new_address_def drop_bit_eq_div)

lemma new_address_split:
  "a = page_number (new_address a) * 256 + page_offset (new_address a)"
  by (simp add: new_address_def drop_bit_eq_div and255_mod)

lemma state_after_full:
  "state_after (length raws) raws bs g buf0 =
     map_addresses_loop bs (map new_address raws)
       (resize_addresses (create_physical_memory g) (int (length raws)))
       create_page_table buf0"
  by (simp add: state_after_def virtual_memory_of_def)

lemma state_after_eq:
  "state_after n raws bs g buf0 =
     map_addresses_loop bs (take n (map new_address raws))
       (resize_addresses (create_physical_memory g) (int (length raws)))
       create_page_table buf0"
  by (simp add: state_after_def virtual_memory_of_def)

lemma run_addresses_unfold:
  "run_addresses raws bs g buf0 =
     (case state_after (length raws) raws bs g buf0 of
        Inl e \<Rightarrow> Inl e
      | Inr (pm, pt, buf, ts) \<Rightarrow>
          Inr (pm, pt, \<lparr>translation_records = ts, page_faults = fault_count pt,
                        rate_dividend = fault_count pt, rate_divisor = int (length raws)\<rparr>))"
  by (simp add: run_addresses_def map_addresses_def state_after_def virtual_memory_of_def Let_def
      split: sum.splits)

lemma run_addresses_Inr:
  assumes "run_addresses raws bs g buf0 = Inr (pm, pt, r)"
  shows "\<exists>buf. map_addresses_loop bs (map new_address raws)
       (resize_addresses (create_physical_memory g) (int (length raws)))
       create_page_table buf0 = Inr (pm, pt, buf, translation_records r) \<and>
     page_faults r = fault_count pt \<and> rate_dividend r = fault_count pt \<and>
     rate_divisor r = int (length raws)"
  using assms unfolding run_addresses_unfold state_after_full
  by (auto split: sum.splits)

lemma run_addresses_succeeds:
  assumes "\<forall>a \<in> set raws. 0 \<le> a \<and> a < 65536"
  shows "\<exists>pm pt r. run_addresses raws bs g buf0 = Inr (pm, pt, r)"
proof -
  have "\<exists>pm' pt' buf' ts. map_addresses_loop bs (map new_address raws)
       (resize_addresses (create_physical_memory g) (int (length raws)))
       create_page_table buf0 = Inr (pm', pt', buf', ts)"
  proof (rule loop_succeeds[OF start_inv])
    show "\<forall>v\<in>set (map new_address raws).
       0 \<le> page_number v \<and> page_number v < 256 \<and> 0 \<le> page_offset v \<and> page_offset v < 256"
      using assms new_address_range new_address_offset_range by auto
  qed (simp_all add: create_page_table_def resize_addresses_def create_physical_memory_def realloc_def)
  then show ?thesis
    unfolding run_addresses_unfold state_after_full by auto
qed

subsection \<open>The passes of a run\<close>

lemma hitD:
  assumes "translate bs va pm pt buf = Inr (pm', pt', buf', t)"
    and "table_inv pm pt"
    and "nat (page_number va) \<in> mapped pt"
  shows "0 \<le> page_number va" and "page_number va < 256"
    and "\<not> faulted t" and "virtual t = va"
    and "physical t = new_physical_address (map_pt pt ! nat (page_number va)) (page_offset va)
                   (space pm (nat (page_offset va + map_pt pt ! nat (page_number va) * 256)))"
    and "0 \<le> page_offset va + map_pt pt ! nat (page_number va) * 256"
    and "page_offset va + map_pt pt ! nat (page_number va) * 256 < 65536"
    and "map_pt pt ! nat (page_number va) < int (length (pm_addresses pm))"
    and "buf' = buf" and "pt' = pt" and "space pm' = space pm"
    and "next_available_frame_index pm' = next_available_frame_index pm"
    and "pm_address_count pm' = pm_address_count pm + 1"
    and "length (pm_addresses pm') = length (pm_addresses pm)"
  using translate_hit_facts[OF assms] by - (elim conjE, assumption)+

lemma faultD:
  assumes "translate bs va pm pt buf = Inr (pm', pt', buf', t)"
    and "table_inv pm pt"
    and "nat (page_number va) \<notin> mapped pt"
  shows "0 \<le> page_number va" and "page_number va < 256" and "fault_count pt < 256"
    and "faulted t" and "virtual t = va"
    and "physical t = new_physical_address (fault_count pt) (page_offset va)
                   (space pm' (nat (page_offset va + fault_count pt * 256)))"
    and "0 \<le> page_offset va + fault_count pt * 256"
    and "page_offset va + fault_count pt * 256 < 65536"
    and "fault_count pt < int (length (pm_addresses pm))"
    and "buf' = fread bs (nat (page_number va * 256)) buf"
    and "pt' = pt\<lparr>fault_count := fault_count pt + 1,
             map_pt := (map_pt pt)[nat (page_number va) := fault_count pt]\<rparr>"
    and "space pm' = loaded (fault_count pt) buf' (space pm)"
    and "next_available_frame_index pm' = next_available_frame_index pm + 1"
    and "pm_address_count pm' = pm_address_count pm + 1"
    and "length (pm_addresses pm') = length (pm_addresses pm)"
  using translate_fault_facts[OF assms] by - (elim conjE, assumption)+


lemma state_after_inv:
  assumes "state_after n raws bs g buf0 = Inr (pm1, pt1, buf1, ts1)"
  shows "table_inv pm1 pt1"
    and "mapped pt1 = (\<lambda>a. nat (page_number (new_address a))) ` set (take n raws)"
    and "\<forall>a \<in> set (take n raws). 0 \<le> a \<and> a < 65536"
    and "fault_count pt1 = int (length (filter faulted ts1))"
    and "length ts1 = length (take n raws)"
proof -
  note lp = assms[unfolded state_after_eq]
  show "table_inv pm1 pt1" by (rule loop_inv[OF lp start_inv])
  from loop_pages[OF lp start_inv]
  have m: "mapped pt1 = (\<lambda>v. nat (page_number v)) ` set (take n (map new_address raws))"
    and r: "\<forall>v \<in> set (take n (map new_address raws)). 0 \<le> page_number v \<and> page_number v < 256"
    by (simp_all add: mapped_start)
  show "mapped pt1 = (\<lambda>a. nat (page_number (new_address a))) ` set (take n raws)"
    unfolding m by (simp add: take_map image_image)
  show "\<forall>a \<in> set (take n raws). 0 \<le> a \<and> a < 65536"
    using r new_address_page_range by (simp add: take_map)
  show "fault_count pt1 = int (length (filter faulted ts1))"
    using loop_faults[OF lp start_inv] by (simp add: create_page_table_def)
  show "length ts1 = length (take n raws)"
    using loop_length[OF lp] by simp
qed

lemma run_index:
  assumes run: "run_addresses raws bs g buf0 = Inr (pm, pt, r)" and i: "i < length raws"
  obtains pm1 pt1 buf1 pm2 pt2 buf2 buf where
    "state_after i raws bs g buf0 = Inr (pm1, pt1, buf1, take i (translation_records r))"
    "translate bs (new_address (raws ! i)) pm1 pt1 buf1 =
       Inr (pm2, pt2, buf2, translation_records r ! i)"
    "state_after (Suc i) raws bs g buf0 = Inr (pm2, pt2, buf2, take (Suc i) (translation_records r))"
    "map_addresses_loop bs (drop (Suc i) (map new_address raws)) pm2 pt2 buf2 =
       Inr (pm, pt, buf, drop (Suc i) (translation_records r))"
proof -
  from run_addresses_Inr[OF run] obtain buf where
    lp: "map_addresses_loop bs (map new_address raws)
       (resize_addresses (create_physical_memory g) (int (length raws)))
       create_page_table buf0 = Inr (pm, pt, buf, translation_records r)"
    by blast
  have i': "i < length (map new_address raws)" using i by simp
  from loop_nth[OF lp i'] obtain pm1 pt1 buf1 ts1 pm2 pt2 buf2 t ts2 where
    a: "map_addresses_loop bs (take i (map new_address raws))
         (resize_addresses (create_physical_memory g) (int (length raws)))
         create_page_table buf0 = Inr (pm1, pt1, buf1, ts1)" and
    b: "translate bs (map new_address raws ! i) pm1 pt1 buf1 = Inr (pm2, pt2, buf2, t)" and
    c: "map_addresses_loop bs (take (Suc i) (map new_address raws))
         (resize_addresses (create_physical_memory g) (int (length raws)))
         create_page_table buf0 = Inr (pm2, pt2, buf2, ts1 @ [t])" and
    d: "map_addresses_loop bs (drop (Suc i) (map new_address raws)) pm2 pt2 buf2 =
         Inr (pm, pt, buf, ts2)" and
    e: "translation_records r = ts1 @ t # ts2" "length ts1 = i"
       "translation_records r ! i = t" "take i (translation_records r) = ts1"
    by blast
  have t1: "take (Suc i) (translation_records r) = ts1 @ [t]" using e by simp
  have t2: "drop (Suc i) (translation_records r) = ts2" using e by simp
  show ?thesis
    by (rule that[of pm1 pt1 buf1 pm2 pt2 buf2 buf])
       (use a b c d e t1 t2 i in \<open>simp_all add: state_after_eq\<close>)
qed

lemma nat_page_eq:
  "0 \<le> a \<Longrightarrow> 0 \<le> b \<Longrightarrow>
   (nat (page_number (new_address a)) = nat (page_number (new_address b))) =
   (page_number (new_address a) = page_number (new_address b))"
proof -
  assume "0 \<le> a" "0 \<le> b"
  then have "0 \<le> page_number (new_address a)" "0 \<le> page_number (new_address b)"
    by (simp_all add: new_address_def drop_bit_eq_div pos_imp_zdiv_nonneg_iff)
  then show ?thesis by (rule eq_nat_nat_iff)
qed

lemma run_range:
  assumes run: "run_addresses raws bs g buf0 = Inr (pm, pt, r)"
  shows "\<forall>a \<in> set raws. 0 \<le> a \<and> a < 65536"
proof -
  from run obtain buf ts where "state_after (length raws) raws bs g buf0 = Inr (pm, pt, buf, ts)"
    unfolding run_addresses_unfold by (auto split: sum.splits)
  from state_after_inv(3)[OF this] show ?thesis by simp
qed

lemma in_take_image:
  assumes "i \<le> length xs"
  shows "(y \<in> f ` set (take i xs)) = (\<exists>k<i. f (xs ! k) = y)"
proof
  assume "y \<in> f ` set (take i xs)"
  then obtain x where x: "x \<in> set (take i xs)" "y = f x" by blast
  then obtain k where "k < length (take i xs)" "take i xs ! k = x"
    unfolding in_set_conv_nth by blast
  then have "k < i" "f (xs ! k) = y" using x assms by simp_all
  then show "\<exists>k<i. f (xs ! k) = y" by blast
next
  assume "\<exists>k<i. f (xs ! k) = y"
  then obtain k where k: "k < i" "f (xs ! k) = y" by blast
  then have "take i xs ! k = xs ! k" "k < length (take i xs)" using assms by simp_all
  then have "xs ! k \<in> set (take i xs)" by (metis nth_mem)
  then show "y \<in> f ` set (take i xs)" using k by blast
qed

lemma run_fault_iff:
  assumes run: "run_addresses raws bs g buf0 = Inr (pm, pt, r)" and i: "i < length raws"
  shows "faulted (translation_records r ! i) =
         (\<forall>k<i. page_number (new_address (raws ! k)) \<noteq> page_number (new_address (raws ! i)))"
proof -
  obtain pm1 pt1 buf1 pm2 pt2 buf2 buf where
    a: "state_after i raws bs g buf0 = Inr (pm1, pt1, buf1, take i (translation_records r))" and
    b: "translate bs (new_address (raws ! i)) pm1 pt1 buf1 =
       Inr (pm2, pt2, buf2, translation_records r ! i)" and
    c: "state_after (Suc i) raws bs g buf0 = Inr (pm2, pt2, buf2, take (Suc i) (translation_records r))" and
    d: "map_addresses_loop bs (drop (Suc i) (map new_address raws)) pm2 pt2 buf2 =
       Inr (pm, pt, buf, drop (Suc i) (translation_records r))"
    by (rule run_index[OF run i])
  note inv = state_after_inv(1)[OF a]
  note mp = state_after_inv(2)[OF a]
  note rg = run_range[OF run]
  have pos: "0 \<le> raws ! i" using rg i by simp
  have "faulted (translation_records r ! i) = (nat (page_number (new_address (raws ! i))) \<notin> mapped pt1)"
    using hitD(3)[OF b inv] faultD(4)[OF b inv] by blast
  also have "\<dots> = (\<forall>k<i. nat (page_number (new_address (raws ! k))) \<noteq> nat (page_number (new_address (raws ! i))))"
    unfolding mp using in_take_image[of i raws "nat (page_number (new_address (raws ! i)))" "\<lambda>a. nat (page_number (new_address a))"] i
    by auto
  also have "\<dots> = (\<forall>k<i. page_number (new_address (raws ! k)) \<noteq> page_number (new_address (raws ! i)))"
  proof -
    have "\<And>k. k < i \<Longrightarrow> 0 \<le> raws ! k" using rg i by simp
    then show ?thesis using pos by (simp add: nat_page_eq)
  qed
  finally show ?thesis .
qed


lemma run_frame_final:
  assumes run: "run_addresses raws bs g buf0 = Inr (pm, pt, r)" and i: "i < length raws"
  shows "frame_number (physical (translation_records r ! i)) =
         map_pt pt ! nat (page_number (new_address (raws ! i)))"
proof -
  obtain pm1 pt1 buf1 pm2 pt2 buf2 buf where
    a: "state_after i raws bs g buf0 = Inr (pm1, pt1, buf1, take i (translation_records r))" and
    b: "translate bs (new_address (raws ! i)) pm1 pt1 buf1 =
       Inr (pm2, pt2, buf2, translation_records r ! i)" and
    c: "state_after (Suc i) raws bs g buf0 = Inr (pm2, pt2, buf2, take (Suc i) (translation_records r))" and
    d: "map_addresses_loop bs (drop (Suc i) (map new_address raws)) pm2 pt2 buf2 =
       Inr (pm, pt, buf, drop (Suc i) (translation_records r))"
    by (rule run_index[OF run i])
  let ?p = "nat (page_number (new_address (raws ! i)))"
  note inv1 = state_after_inv(1)[OF a]
  note inv2 = state_after_inv(1)[OF c]
  have in2: "?p \<in> mapped pt2"
    unfolding state_after_inv(2)[OF c] using i by (auto simp: take_Suc_conv_app_nth)
  have f2: "frame_number (physical (translation_records r ! i)) = map_pt pt2 ! ?p"
  proof (cases "?p \<in> mapped pt1")
    case True
    from hitD(5,10)[OF b inv1 True] show ?thesis
      by (simp add: new_physical_address_def)
  next
    case False
    note f = faultD[OF b inv1 False]
    have len: "length (map_pt pt1) = 256" using inv1 by (simp add: table_inv_def)
    have "?p < 256" using f(1,2) by simp
    then show ?thesis using f(6,11) len by (simp add: new_physical_address_def)
  qed
  from loop_keeps[OF d inv2 in2] f2 show ?thesis by simp
qed

lemma state_after_exists:
  assumes run: "run_addresses raws bs g buf0 = Inr (pm, pt, r)"
  shows "\<exists>pm1 pt1 buf1. state_after n raws bs g buf0 =
           Inr (pm1, pt1, buf1, take n (translation_records r))"
proof -
  from run_addresses_Inr[OF run] obtain buf where
    lp: "map_addresses_loop bs (map new_address raws)
       (resize_addresses (create_physical_memory g) (int (length raws)))
       create_page_table buf0 = Inr (pm, pt, buf, translation_records r)"
    by blast
  from loop_take[OF lp, of n] show ?thesis
    unfolding state_after_eq by blast
qed

lemma state_after_last:
  assumes run: "run_addresses raws bs g buf0 = Inr (pm, pt, r)"
  shows "\<exists>buf. state_after (length raws) raws bs g buf0 =
           Inr (pm, pt, buf, translation_records r)"
  using run_addresses_Inr[OF run] unfolding state_after_full by blast

lemma state_after_mono:
  assumes nm: "n \<le> m"
    and a: "state_after n raws bs g buf0 = Inr (pm1, pt1, buf1, ts1)"
    and b: "state_after m raws bs g buf0 = Inr (pm2, pt2, buf2, ts2)"
    and p: "p \<in> mapped pt1"
  shows "p \<in> mapped pt2" and "map_pt pt2 ! p = map_pt pt1 ! p"
    and "off < 256 \<Longrightarrow> space pm2 (nat (map_pt pt1 ! p) * 256 + off) =
                           space pm1 (nat (map_pt pt1 ! p) * 256 + off)"
proof -
  let ?vas = "map new_address raws"
  let ?pm0 = "resize_addresses (create_physical_memory g) (int (length raws))"
  have tk: "take n (take m ?vas) = take n ?vas" using nm by (simp add: min_def)
  from loop_take[OF b[unfolded state_after_eq], of n] obtain pm' pt' buf' where
    x: "map_addresses_loop bs (take n (take m ?vas)) ?pm0 create_page_table buf0 =
          Inr (pm', pt', buf', take n ts2)" and
    y: "map_addresses_loop bs (drop n (take m ?vas)) pm' pt' buf' =
          Inr (pm2, pt2, buf2, drop n ts2)"
    by blast
  from x a have e: "pm' = pm1" "pt' = pt1" "buf' = buf1"
    unfolding tk state_after_eq by simp_all
  note k = loop_keeps[OF y[unfolded e] state_after_inv(1)[OF a] p]
  from k show "p \<in> mapped pt2" and "map_pt pt2 ! p = map_pt pt1 ! p"
    and "off < 256 \<Longrightarrow> space pm2 (nat (map_pt pt1 ! p) * 256 + off) =
                           space pm1 (nat (map_pt pt1 ! p) * 256 + off)"
    by simp_all
qed

lemma first_reference:
  fixes f :: "'a \<Rightarrow> 'b"
  assumes "j < length xs"
  shows "\<exists>i\<le>j. f (xs ! i) = f (xs ! j) \<and> (\<forall>k<i. f (xs ! k) \<noteq> f (xs ! j))"
proof -
  define i where "i = (LEAST i. f (xs ! i) = f (xs ! j))"
  have 1: "f (xs ! i) = f (xs ! j)" unfolding i_def by (rule LeastI[of _ j]) simp
  have 2: "i \<le> j" unfolding i_def by (rule Least_le) simp
  have 3: "\<forall>k<i. f (xs ! k) \<noteq> f (xs ! j)"
    unfolding i_def using not_less_Least by blast
  from 1 2 3 show ?thesis by blast
qed

lemma loop_records:
  "map_addresses_loop bs vas pm pt buf = Inr (pm', pt', buf', ts) \<Longrightarrow> table_inv pm pt \<Longrightarrow>
   \<forall>t \<in> set ts.
     virtual t \<in> set vas \<and>
     0 \<le> frame_number (physical t) \<and> frame_number (physical t) < 256 \<and>
     frame_offset (physical t) = page_offset (virtual t) \<and>
     0 \<le> frame_offset (physical t) + frame_number (physical t) * 256 \<and>
     frame_offset (physical t) + frame_number (physical t) * 256 < 65536 \<and>
     pa_address (physical t) = push_bit 8 (frame_number (physical t)) OR frame_offset (physical t)"
proof (induction vas arbitrary: pm pt buf ts)
  case Nil
  then show ?case by simp
next
  case (Cons va vas)
  from Cons.prems(1) obtain pm1 pt1 buf1 t ts1 where
    tr: "translate bs va pm pt buf = Inr (pm1, pt1, buf1, t)" and
    lp: "map_addresses_loop bs vas pm1 pt1 buf1 = Inr (pm', pt', buf', ts1)" and
    ts: "ts = t # ts1"
    by (auto split: sum.splits prod.splits)
  note inv = Cons.prems(2)
  from inv have len: "length (map_pt pt) = 256"
    and fc: "fault_count pt = int (card (mapped pt))"
    and fr: "\<forall>p \<in> mapped pt. 0 \<le> map_pt pt ! p \<and> map_pt pt ! p < fault_count pt"
    by (auto simp: table_inv_def)
  have t: "virtual t = va \<and>
     0 \<le> frame_number (physical t) \<and> frame_number (physical t) < 256 \<and>
     frame_offset (physical t) = page_offset (virtual t) \<and>
     0 \<le> frame_offset (physical t) + frame_number (physical t) * 256 \<and>
     frame_offset (physical t) + frame_number (physical t) * 256 < 65536 \<and>
     pa_address (physical t) = push_bit 8 (frame_number (physical t)) OR frame_offset (physical t)"
  proof (cases "nat (page_number va) \<in> mapped pt")
    case True
    note h = hitD[OF tr inv True]
    have "fault_count pt \<le> 256" using fc card_mapped_le[OF len] by simp
    then have "0 \<le> map_pt pt ! nat (page_number va)" "map_pt pt ! nat (page_number va) < 256"
      using fr True by auto
    then show ?thesis using h(4,5,6,7) by (simp add: new_physical_address_def)
  next
    case False
    note f = faultD[OF tr inv False]
    have "0 \<le> fault_count pt" using fc by simp
    then show ?thesis using f(3,5,6,7,8) by (simp add: new_physical_address_def)
  qed
  from Cons.IH[OF lp translate_inv[OF tr inv]] t ts show ?case by auto
qed

lemma nat_index:
  "0 \<le> (f::int) \<Longrightarrow> 0 \<le> off \<Longrightarrow> nat (off + f * 256) = nat f * 256 + nat off"
  by (simp add: nat_add_distrib nat_mult_distrib)

lemma loaded_frame:
  "0 \<le> f \<Longrightarrow> 0 \<le> off \<Longrightarrow> off < 256 \<Longrightarrow>
   loaded f buf sp (nat f * 256 + nat off) = buf (nat off)"
proof -
  assume "0 \<le> f" "0 \<le> off" "off < 256"
  then have "nat off < 256" by linarith
  then show ?thesis by (simp add: loaded_def)
qed

lemma fread_byte:
  "0 \<le> a \<Longrightarrow> nat a < length bs \<Longrightarrow>
   fread bs (nat (page_number (new_address a) * 256)) buf (nat (page_offset (new_address a)))
     = bs ! nat a"
proof -
  assume a: "0 \<le> a" "nat a < length bs"
  have p: "0 \<le> page_number (new_address a)"
    using a by (simp add: new_address_def drop_bit_eq_div pos_imp_zdiv_nonneg_iff)
  have o: "0 \<le> page_offset (new_address a)" "page_offset (new_address a) < 256"
    by (rule new_address_offset_range)+
  have "nat (page_number (new_address a) * 256) + nat (page_offset (new_address a))
          = nat (page_number (new_address a) * 256 + page_offset (new_address a))"
    using p o by (simp add: nat_add_distrib)
  also have "\<dots> = nat a" using new_address_split[of a] by simp
  finally have e: "nat (page_number (new_address a) * 256) + nat (page_offset (new_address a)) = nat a" .
  have "nat (page_offset (new_address a)) < 256" using o by linarith
  then show ?thesis using a(2) by (simp add: fread_def e)
qed

lemma run_value:
  assumes run: "run_addresses raws bs g buf0 = Inr (pm, pt, r)" and j: "j < length raws"
  shows "\<exists>i\<le>j. page_number (new_address (raws ! i)) = page_number (new_address (raws ! j)) \<and>
           (\<forall>k<i. page_number (new_address (raws ! k)) \<noteq> page_number (new_address (raws ! j))) \<and>
           (\<exists>pm1 pt1 buf1.
              state_after i raws bs g buf0 = Inr (pm1, pt1, buf1, take i (translation_records r)) \<and>
              frame_number (physical (translation_records r ! j)) = fault_count pt1 \<and>
              pa_value (physical (translation_records r ! j)) =
                fread bs (nat (page_number (new_address (raws ! j)) * 256)) buf1
                  (nat (page_offset (new_address (raws ! j)))))"
proof -
  let ?pg = "\<lambda>a. page_number (new_address a)"
  let ?p = "nat (?pg (raws ! j))"
  let ?off = "page_offset (new_address (raws ! j))"
  have off: "0 \<le> ?off" "?off < 256" by (rule new_address_offset_range)+
  from first_reference[OF j, of ?pg] obtain i where
    ij: "i \<le> j" and same: "?pg (raws ! i) = ?pg (raws ! j)" and
    first: "\<forall>k<i. ?pg (raws ! k) \<noteq> ?pg (raws ! j)"
    by blast
  have i: "i < length raws" using ij j by simp
  obtain pm1 pt1 buf1 pm2 pt2 buf2 bufx where
    a: "state_after i raws bs g buf0 = Inr (pm1, pt1, buf1, take i (translation_records r))" and
    b: "translate bs (new_address (raws ! i)) pm1 pt1 buf1 =
       Inr (pm2, pt2, buf2, translation_records r ! i)" and
    c: "state_after (Suc i) raws bs g buf0 = Inr (pm2, pt2, buf2, take (Suc i) (translation_records r))" and
    d: "map_addresses_loop bs (drop (Suc i) (map new_address raws)) pm2 pt2 buf2 =
       Inr (pm, pt, bufx, drop (Suc i) (translation_records r))"
    by (rule run_index[OF run i])
  note inv1 = state_after_inv(1)[OF a]
  have fl: "faulted (translation_records r ! i)"
    using run_fault_iff[OF run i] first same by simp
  have un: "nat (?pg (raws ! i)) \<notin> mapped pt1"
    using hitD(3)[OF b inv1] fl by blast
  note f = faultD[OF b inv1 un]
  have fc0: "0 \<le> fault_count pt1" using inv1 by (simp add: table_inv_def)
  have len1: "length (map_pt pt1) = 256" using inv1 by (simp add: table_inv_def)
  have plt: "?p < 256" using f(1,2) same by simp
  have m2: "map_pt pt2 ! ?p = fault_count pt1"
    using f(11) plt len1 same by simp
  have in2: "?p \<in> mapped pt2"
    unfolding state_after_inv(2)[OF c] using i same by (auto simp: take_Suc_conv_app_nth)
  have sp2: "space pm2 (nat (fault_count pt1) * 256 + nat ?off) = buf2 (nat ?off)"
    unfolding f(12) using loaded_frame[OF fc0 off] .
  have buf2: "buf2 = fread bs (nat (?pg (raws ! j) * 256)) buf1"
    using f(10) same by simp
  have fr: "frame_number (physical (translation_records r ! j)) = fault_count pt1 \<and>
            pa_value (physical (translation_records r ! j)) = buf2 (nat ?off)"
  proof (cases "i = j")
    case True
    have "physical (translation_records r ! j) = new_physical_address (fault_count pt1) ?off
                   (space pm2 (nat (?off + fault_count pt1 * 256)))"
      using f(6) True by simp
    then show ?thesis using sp2 nat_index[OF fc0 off(1)]
      by (simp add: new_physical_address_def)
  next
    case False
    then have sij: "Suc i \<le> j" using ij by simp
    obtain pm3 pt3 buf3 pm4 pt4 buf4 bufy where
      a3: "state_after j raws bs g buf0 = Inr (pm3, pt3, buf3, take j (translation_records r))" and
      b3: "translate bs (new_address (raws ! j)) pm3 pt3 buf3 =
         Inr (pm4, pt4, buf4, translation_records r ! j)" and
      c3: "state_after (Suc j) raws bs g buf0 = Inr (pm4, pt4, buf4, take (Suc j) (translation_records r))" and
      d3: "map_addresses_loop bs (drop (Suc j) (map new_address raws)) pm4 pt4 buf4 =
         Inr (pm, pt, bufy, drop (Suc j) (translation_records r))"
      by (rule run_index[OF run j])
    note inv3 = state_after_inv(1)[OF a3]
    note k = state_after_mono[OF sij c a3 in2]
    have m3: "map_pt pt3 ! ?p = fault_count pt1" using k(2) m2 by simp
    have sp3: "space pm3 (nat (fault_count pt1) * 256 + nat ?off) = buf2 (nat ?off)"
      using k(3)[of "nat ?off"] off m2 sp2 by simp
    note h = hitD[OF b3 inv3 k(1)]
    have "physical (translation_records r ! j) = new_physical_address (fault_count pt1) ?off
                   (space pm3 (nat (?off + fault_count pt1 * 256)))"
      using h(5) m3 by simp
    then show ?thesis using sp3 nat_index[OF fc0 off(1)]
      by (simp add: new_physical_address_def)
  qed
  show ?thesis
    using ij same first a fr buf2 by blast
qed

lemma run_record:
  assumes run: "run_addresses raws bs g buf0 = Inr (pm, pt, r)" and i: "i < length raws"
  shows "virtual (translation_records r ! i) = new_address (raws ! i)"
    and "frame_offset (physical (translation_records r ! i)) = page_offset (new_address (raws ! i))"
    and "pa_address (physical (translation_records r ! i)) =
           frame_number (physical (translation_records r ! i)) * 256
             + page_offset (new_address (raws ! i))"
proof -
  let ?t = "translation_records r ! i"
  let ?va = "new_address (raws ! i)"
  obtain pm1 pt1 buf1 pm2 pt2 buf2 bufx where
    a: "state_after i raws bs g buf0 = Inr (pm1, pt1, buf1, take i (translation_records r))" and
    b: "translate bs ?va pm1 pt1 buf1 = Inr (pm2, pt2, buf2, ?t)" and
    c: "state_after (Suc i) raws bs g buf0 = Inr (pm2, pt2, buf2, take (Suc i) (translation_records r))" and
    d: "map_addresses_loop bs (drop (Suc i) (map new_address raws)) pm2 pt2 buf2 =
       Inr (pm, pt, bufx, drop (Suc i) (translation_records r))"
    by (rule run_index[OF run i])
  note inv1 = state_after_inv(1)[OF a]
  have "\<exists>f v. virtual ?t = ?va \<and> physical ?t = new_physical_address f (page_offset ?va) v"
  proof (cases "nat (page_number ?va) \<in> mapped pt1")
    case True
    from hitD(4,5)[OF b inv1 True] show ?thesis by blast
  next
    case False
    from faultD(5,6)[OF b inv1 False] show ?thesis by blast
  qed
  then obtain f v where v: "virtual ?t = ?va"
    and p: "physical ?t = new_physical_address f (page_offset ?va) v" by blast
  show "virtual ?t = ?va" by (rule v)
  show "frame_offset (physical ?t) = page_offset ?va"
    unfolding p by (simp add: new_physical_address_def)
  show "pa_address (physical ?t) = frame_number (physical ?t) * 256 + page_offset ?va"
    unfolding p using push_or[of "page_offset ?va" f] new_address_offset_range[of "raws ! i"]
    by (simp add: new_physical_address_def)
qed

subsection \<open>An example run\<close>

lemmas run_eval = run_addresses_unfold state_after_def virtual_memory_of_def translate_def
  page_fault_eq create_page_table_def create_physical_memory_def resize_addresses_def
  realloc_def new_address_def new_physical_address_def space_read_def Let_def
  drop_bit_eq_div and255_mod loaded_def fread_def zero_bytes_def example_store_def
  output_line_def nth_append

lemma example_run:
  assumes run: "run_addresses [16916, 16917, 5, 16916] example_store zero_bytes zero_bytes
                  = Inr (pm, pt, r)"
  shows "map faulted (translation_records r) = [True, False, True, False]"
    and "map (\<lambda>t. frame_number (physical t)) (translation_records r) = [0, 0, 1, 0]"
    and "map output_line (translation_records r) =
           [(16916, 20, 42), (16917, 21, 0), (5, 261, 0), (16916, 20, 42)]"
    and "fault_count pt = 2" and "page_faults r = 2" and "rate_divisor r = 4"
    and "map_pt pt ! 66 = 0" and "map_pt pt ! 0 = 1"
  using run by (auto simp add: run_eval)

lemma example_succeeds:
  "\<exists>pm pt r. run_addresses [16916, 16917, 5, 16916] example_store zero_bytes zero_bytes
                  = Inr (pm, pt, r)"
  by (rule run_addresses_succeeds) simp

lemma example_run_more:
  assumes run: "run_addresses [16916, 16917, 5, 16916] example_store zero_bytes zero_bytes
                  = Inr (pm, pt, r)"
  shows "faulted (translation_records r ! 0)"
    and "\<not> faulted (translation_records r ! 3)"
    and "pa_value (physical (translation_records r ! 3)) = 42"
    and "output_line (translation_records r ! 0) = (16916, 20, 42)"
    and "frame_number (physical (translation_records r ! 0)) = 0"
  using run by (auto simp add: run_eval)

lemma example_store_byte: "length example_store = 65536" "example_store ! 16916 = 42"
  by (simp_all add: example_store_def nth_append)

subsection \<open>Reading the input file\<close>

lemma read_lines_no_newline:
  "CHR 0x0A \<notin> set t \<Longrightarrow> read_lines t buf vm = Inr vm"
  by (induction t arbitrary: buf) auto

lemma read_lines_append:
  "CHR 0x0A \<notin> set t \<Longrightarrow> read_lines (s @ t) buf vm = read_lines s buf vm"
proof (induction s arbitrary: buf vm)
  case Nil
  then show ?case by (simp add: read_lines_no_newline)
next
  case (Cons c s)
  then show ?case by (auto split: sum.splits)
qed

lemma read_lines_count:
  "read_lines s buf vm = Inr vm' \<Longrightarrow>
   address_count vm' =
     address_count vm + int (count_list (takeWhile (\<lambda>c. c \<noteq> CHR 0xFF) s) (CHR 0x0A)) \<and>
   length (addresses vm') =
     length (addresses vm) + count_list (takeWhile (\<lambda>c. c \<noteq> CHR 0xFF) s) (CHR 0x0A)"
proof (induction s arbitrary: buf vm)
  case Nil
  then show ?case by simp
next
  case (Cons c s)
  show ?case
  proof (cases "c = CHR 0xFF")
    case True
    then show ?thesis using Cons.prems by simp
  next
    case ff: False
    show ?thesis
    proof (cases "c = CHR 0x0A")
      case False
      then have "read_lines s (buf @ [c]) vm = Inr vm'" using Cons.prems ff by simp
      from Cons.IH[OF this] show ?thesis using ff False by simp
    next
      case True
      then obtain a where
        "read_lines s [] (vm\<lparr>addresses := addresses vm @ [new_address a],
                              address_count := address_count vm + 1\<rparr>) = Inr vm'"
        using Cons.prems ff by (auto split: sum.splits if_splits)
      from Cons.IH[OF this] show ?thesis using ff True by simp
    qed
  qed
qed

lemma ex_parse:
  "create_virtual_memory (''16916'' @ [CHR 0x0A] @ ''62493'' @ [CHR 0x0A]) =
     Inr \<lparr>address_count = 2, addresses = [new_address 16916, new_address 62493]\<rparr>"
  by (simp add: create_virtual_memory_def atoi_def isspace_def isdigit_def Let_def new_address_def)

subsection \<open>Faults and frames of a run\<close>










section \<open>The claims\<close>

text \<open>
  C1. In every run, a pass goes through the fault branch exactly when no earlier
  address has its page number, and the fault counter after any number of passes is the
  number of faulting passes among them: of the addresses that share a page number only
  the first increments \<open>fault_count\<close>. Every later one takes the hit path and is
  translated with the frame number of the first, which is the entry of the page in the
  page table at the end of the run. An entry of the page table that is mapped after n
  passes is mapped, with the same frame, after any m \<ge> n passes and at the end.
\<close>

theorem repeated_page_faults_once:
  assumes run: "run_addresses raws bs g buf0 = Inr (pm, pt, r)"
  shows "(\<forall>j < length raws.
            faulted (translation_records r ! j) =
              (\<forall>i<j. page_number (new_address (raws ! i))
                        \<noteq> page_number (new_address (raws ! j)))) \<and>
         (\<forall>i j. i < j \<and> j < length raws \<and>
                page_number (new_address (raws ! i)) = page_number (new_address (raws ! j)) \<longrightarrow>
                \<not> faulted (translation_records r ! j) \<and>
                frame_number (physical (translation_records r ! j)) =
                  frame_number (physical (translation_records r ! i))) \<and>
         (\<forall>j < length raws.
            frame_number (physical (translation_records r ! j)) =
              map_pt pt ! nat (page_number (new_address (raws ! j)))) \<and>
         (\<forall>n m. n \<le> m \<and> m \<le> length raws \<longrightarrow>
            (\<exists>pm1 pt1 buf1 pm2 pt2 buf2.
               state_after n raws bs g buf0 = Inr (pm1, pt1, buf1, take n (translation_records r)) \<and>
               state_after m raws bs g buf0 = Inr (pm2, pt2, buf2, take m (translation_records r)) \<and>
               fault_count pt1 = int (length (filter faulted (take n (translation_records r)))) \<and>
               (\<forall>p \<in> mapped pt1. p \<in> mapped pt2 \<and> map_pt pt2 ! p = map_pt pt1 ! p \<and>
                                   map_pt pt ! p = map_pt pt1 ! p))) \<and>
         fault_count pt = int (length (filter faulted (translation_records r)))"
proof -
  let ?ts = "translation_records r"
  let ?pg = "\<lambda>k. page_number (new_address (raws ! k))"
  have len: "length ?ts = length raws"
    using state_after_last[OF run] state_after_inv(5) by fastforce
  have 1: "\<forall>j < length raws. faulted (?ts ! j) = (\<forall>i<j. ?pg i \<noteq> ?pg j)"
    using run_fault_iff[OF run] by blast
  have 3: "\<forall>j < length raws. frame_number (physical (?ts ! j)) = map_pt pt ! nat (?pg j)"
    using run_frame_final[OF run] by blast
  have 2: "\<forall>i j. i < j \<and> j < length raws \<and> ?pg i = ?pg j \<longrightarrow>
                \<not> faulted (?ts ! j) \<and>
                frame_number (physical (?ts ! j)) = frame_number (physical (?ts ! i))"
  proof (intro allI impI)
    fix i j assume h: "i < j \<and> j < length raws \<and> ?pg i = ?pg j"
    then have i: "i < length raws" and j: "j < length raws" by simp_all
    have "\<not> faulted (?ts ! j)" using run_fault_iff[OF run j] h by auto
    moreover have "frame_number (physical (?ts ! j)) = frame_number (physical (?ts ! i))"
      using run_frame_final[OF run i] run_frame_final[OF run j] h by simp
    ultimately show "\<not> faulted (?ts ! j) \<and>
                frame_number (physical (?ts ! j)) = frame_number (physical (?ts ! i))" by simp
  qed
  obtain bufl where last: "state_after (length raws) raws bs g buf0 = Inr (pm, pt, bufl, ?ts)"
    using state_after_last[OF run] by blast
  have 4: "\<forall>n m. n \<le> m \<and> m \<le> length raws \<longrightarrow>
            (\<exists>pm1 pt1 buf1 pm2 pt2 buf2.
               state_after n raws bs g buf0 = Inr (pm1, pt1, buf1, take n ?ts) \<and>
               state_after m raws bs g buf0 = Inr (pm2, pt2, buf2, take m ?ts) \<and>
               fault_count pt1 = int (length (filter faulted (take n ?ts))) \<and>
               (\<forall>p \<in> mapped pt1. p \<in> mapped pt2 \<and> map_pt pt2 ! p = map_pt pt1 ! p \<and>
                                   map_pt pt ! p = map_pt pt1 ! p))"
  proof (intro allI impI)
    fix n m assume h: "n \<le> m \<and> m \<le> length raws"
    then have nm: "n \<le> m" and nl: "n \<le> length raws" by simp_all
    from state_after_exists[OF run, of n] obtain pm1 pt1 buf1 where
      a: "state_after n raws bs g buf0 = Inr (pm1, pt1, buf1, take n ?ts)" by blast
    from state_after_exists[OF run, of m] obtain pm2 pt2 buf2 where
      b: "state_after m raws bs g buf0 = Inr (pm2, pt2, buf2, take m ?ts)" by blast
    have c: "fault_count pt1 = int (length (filter faulted (take n ?ts)))"
      by (rule state_after_inv(4)[OF a])
    have d: "\<forall>p \<in> mapped pt1. p \<in> mapped pt2 \<and> map_pt pt2 ! p = map_pt pt1 ! p \<and>
                                   map_pt pt ! p = map_pt pt1 ! p"
      using state_after_mono(1,2)[OF nm a b] state_after_mono(2)[OF nl a last] by blast
    from a b c d show "\<exists>pm1 pt1 buf1 pm2 pt2 buf2.
               state_after n raws bs g buf0 = Inr (pm1, pt1, buf1, take n ?ts) \<and>
               state_after m raws bs g buf0 = Inr (pm2, pt2, buf2, take m ?ts) \<and>
               fault_count pt1 = int (length (filter faulted (take n ?ts))) \<and>
               (\<forall>p \<in> mapped pt1. p \<in> mapped pt2 \<and> map_pt pt2 ! p = map_pt pt1 ! p \<and>
                                   map_pt pt ! p = map_pt pt1 ! p)"
      by blast
  qed
  have 5: "fault_count pt = int (length (filter faulted ?ts))"
    by (rule state_after_inv(4)[OF last])
  from 1 2 3 4 5 show ?thesis by (intro conjI)
qed

theorem repeated_page_faults_once_witness:
  "\<exists>pm pt r.
     run_addresses [16916, 16917, 5, 16916] example_store zero_bytes zero_bytes = Inr (pm, pt, r) \<and>
     map faulted (translation_records r) = [True, False, True, False] \<and>
     map (\<lambda>t. frame_number (physical t)) (translation_records r) = [0, 0, 1, 0] \<and>
     faulted (translation_records r ! 0) \<and>
     \<not> faulted (translation_records r ! 3) \<and>
     frame_number (physical (translation_records r ! 3)) =
       frame_number (physical (translation_records r ! 0)) \<and>
     frame_number (physical (translation_records r ! 3)) = map_pt pt ! 66 \<and>
     fault_count pt = int (length (filter faulted (translation_records r)))"
proof -
  from example_succeeds obtain pm pt r where
    run: "run_addresses [16916, 16917, 5, 16916] example_store zero_bytes zero_bytes
            = Inr (pm, pt, r)"
    by blast
  note T = repeated_page_faults_once[OF run]
  have t1: "faulted (translation_records r ! 0)"
    using T[THEN conjunct1, rule_format, of 0] by simp
  have t2: "\<not> faulted (translation_records r ! 3) \<and>
     frame_number (physical (translation_records r ! 3)) =
       frame_number (physical (translation_records r ! 0))"
    using T[THEN conjunct2, THEN conjunct1, rule_format, of 0 3] by (simp add: new_address_def)
  have t3: "frame_number (physical (translation_records r ! 3)) = map_pt pt ! 66"
    using T[THEN conjunct2, THEN conjunct2, THEN conjunct1, rule_format, of 3]
    by (simp add: new_address_def drop_bit_eq_div)
  have t5: "fault_count pt = int (length (filter faulted (translation_records r)))"
    using T by (elim conjE)
  have "run_addresses [16916, 16917, 5, 16916] example_store zero_bytes zero_bytes = Inr (pm, pt, r) \<and>
     map faulted (translation_records r) = [True, False, True, False] \<and>
     map (\<lambda>t. frame_number (physical t)) (translation_records r) = [0, 0, 1, 0] \<and>
     faulted (translation_records r ! 0) \<and>
     \<not> faulted (translation_records r ! 3) \<and>
     frame_number (physical (translation_records r ! 3)) =
       frame_number (physical (translation_records r ! 0)) \<and>
     frame_number (physical (translation_records r ! 3)) = map_pt pt ! 66 \<and>
     fault_count pt = int (length (filter faulted (translation_records r)))"
    using run example_run(1,2)[OF run] t1 t2 t3 t5
    by - (elim conjE, intro conjI; assumption)
  then show ?thesis by (intro exI)
qed

text \<open>
  C2. For every raw address in [0, PAGE_TABLE_SIZE * PAGE_SIZE) = [0, 65536), decoding it
  as lines 253 and 255 do (page number = raw shifted right by 8, page offset = raw AND
  255) and then building the physical address of line 200 from a frame number equal
  to that page number and a frame offset equal to that page offset gives the raw
  address back.
\<close>

theorem decode_encode_round_trip:
  assumes "0 \<le> raw" and "raw < PAGE_TABLE_SIZE * PAGE_SIZE"
  shows "pa_address (new_physical_address (page_number (new_address raw))
                       (page_offset (new_address raw)) v) = raw"
proof -
  have "push_bit 8 (drop_bit 8 raw) OR (raw AND 255) = raw"
    unfolding mask255 by (rule bit_eqI) (auto simp add: bit_simps)
  then show ?thesis
    by (simp add: new_physical_address_def new_address_def)
qed

theorem decode_encode_round_trip_witness:
  "(0::int) \<le> 16916 \<and> (16916::int) < PAGE_TABLE_SIZE * PAGE_SIZE \<and>
   page_number (new_address 16916) = 66 \<and> page_offset (new_address 16916) = 20 \<and>
   pa_address (new_physical_address 66 20 0) = 16916"
proof -
  have a: "(0::int) \<le> 16916" and b: "(16916::int) < PAGE_TABLE_SIZE * PAGE_SIZE" by simp_all
  have p: "page_number (new_address 16916) = 66" "page_offset (new_address 16916) = 20"
    by (simp_all add: new_address_def drop_bit_eq_div and255_mod)
  from decode_encode_round_trip[OF a b, of 0] p show ?thesis by simp
qed

text \<open>
  C3. For every address that takes the hit path, the byte of its translation is the
  byte at its page offset in the block that the pass of the first reference to its
  page (the one load of that page, a faulting pass) read from the backing store into
  the read buffer; where the backing store holds that byte, it is the byte of the
  backing store at the address.
\<close>

theorem hit_byte_is_loaded_byte:
  assumes run: "run_addresses raws bs g buf0 = Inr (pm, pt, r)"
    and j: "j < length raws"
    and hit: "\<not> faulted (translation_records r ! j)"
  shows "\<exists>i<j. page_number (new_address (raws ! i)) = page_number (new_address (raws ! j)) \<and>
           (\<forall>k<i. page_number (new_address (raws ! k)) \<noteq> page_number (new_address (raws ! j))) \<and>
           faulted (translation_records r ! i) \<and>
           (\<exists>pm1 pt1 buf1 pm2 pt2.
              state_after i raws bs g buf0 = Inr (pm1, pt1, buf1, take i (translation_records r)) \<and>
              state_after (Suc i) raws bs g buf0 =
                Inr (pm2, pt2,
                     fread bs (nat (page_number (new_address (raws ! j)) * PAGE_SIZE)) buf1,
                     take (Suc i) (translation_records r)) \<and>
              pa_value (physical (translation_records r ! j)) =
                fread bs (nat (page_number (new_address (raws ! j)) * PAGE_SIZE)) buf1
                  (nat (page_offset (new_address (raws ! j))))) \<and>
           (nat (raws ! j) < length bs \<longrightarrow>
              pa_value (physical (translation_records r ! j)) = bs ! nat (raws ! j))"
proof -
  let ?pg = "\<lambda>k. page_number (new_address (raws ! k))"
  let ?ts = "translation_records r"
  from run_value[OF run j] obtain i pm1 pt1 buf1 where
    ij: "i \<le> j" and same: "?pg i = ?pg j" and first: "\<forall>k<i. ?pg k \<noteq> ?pg j" and
    a: "state_after i raws bs g buf0 = Inr (pm1, pt1, buf1, take i ?ts)" and
    v: "pa_value (physical (?ts ! j)) =
          fread bs (nat (?pg j * 256)) buf1 (nat (page_offset (new_address (raws ! j))))"
    by blast
  have i: "i < length raws" using ij j by simp
  have fi: "faulted (?ts ! i)" using run_fault_iff[OF run i] first same by simp
  then have "i \<noteq> j" using hit by auto
  then have lt: "i < j" using ij by simp
  obtain pm1' pt1' buf1' pm2 pt2 buf2 bufx where
    a': "state_after i raws bs g buf0 = Inr (pm1', pt1', buf1', take i ?ts)" and
    b: "translate bs (new_address (raws ! i)) pm1' pt1' buf1' = Inr (pm2, pt2, buf2, ?ts ! i)" and
    c: "state_after (Suc i) raws bs g buf0 = Inr (pm2, pt2, buf2, take (Suc i) ?ts)" and
    d: "map_addresses_loop bs (drop (Suc i) (map new_address raws)) pm2 pt2 buf2 =
       Inr (pm, pt, bufx, drop (Suc i) ?ts)"
    by (rule run_index[OF run i])
  from a a' have e: "pm1' = pm1" "pt1' = pt1" "buf1' = buf1" by simp_all
  note inv1 = state_after_inv(1)[OF a]
  have un: "nat (page_number (new_address (raws ! i))) \<notin> mapped pt1"
    using hitD(3)[OF b[unfolded e] inv1] fi by blast
  have "buf2 = fread bs (nat (?pg j * 256)) buf1"
    using faultD(10)[OF b[unfolded e] inv1 un] same by simp
  with c have c': "state_after (Suc i) raws bs g buf0 =
      Inr (pm2, pt2, fread bs (nat (?pg j * 256)) buf1, take (Suc i) ?ts)" by simp
  have pos: "0 \<le> raws ! j" using run_range[OF run] j by simp
  have w: "nat (raws ! j) < length bs \<longrightarrow> pa_value (physical (?ts ! j)) = bs ! nat (raws ! j)"
    using v fread_byte[OF pos, of bs buf1] by simp
  from lt same first fi a c' v w show ?thesis by blast
qed


theorem hit_byte_is_loaded_byte_witness:
  "\<exists>pm pt r.
     run_addresses [16916, 16917, 5, 16916] example_store zero_bytes zero_bytes = Inr (pm, pt, r) \<and>
     (3::nat) < length [16916, 16917, 5, 16916::int] \<and>
     \<not> faulted (translation_records r ! 3) \<and>
     example_store ! 16916 = 42 \<and>
     pa_value (physical (translation_records r ! 3)) = example_store ! 16916"
proof -
  from example_succeeds obtain pm pt r where
    run: "run_addresses [16916, 16917, 5, 16916] example_store zero_bytes zero_bytes
            = Inr (pm, pt, r)"
    by blast
  have j: "(3::nat) < length [16916, 16917, 5, 16916::int]" by simp
  note hit = example_run_more(2)[OF run]
  from hit_byte_is_loaded_byte[OF run j hit]
  have "nat ([16916, 16917, 5, 16916] ! 3) < length example_store \<longrightarrow>
        pa_value (physical (translation_records r ! 3)) =
          example_store ! nat ([16916, 16917, 5, 16916] ! 3)"
    by blast
  then have v: "pa_value (physical (translation_records r ! 3)) = example_store ! 16916"
    by (simp add: example_store_byte(1))
  have "run_addresses [16916, 16917, 5, 16916] example_store zero_bytes zero_bytes = Inr (pm, pt, r) \<and>
     (3::nat) < length [16916, 16917, 5, 16916::int] \<and>
     \<not> faulted (translation_records r ! 3) \<and>
     example_store ! 16916 = 42 \<and>
     pa_value (physical (translation_records r ! 3)) = example_store ! 16916"
    using run j hit example_store_byte(2) v
    by - (intro conjI; assumption)
  then show ?thesis by (intro exI)
qed

text \<open>
  C4. In every run the frame numbers handed to the faulting passes, in input order, are
  0, 1, 2, ...: the fault number k (counting from 0) gets frame number k, so the
  sequence starts at 0 and is strictly increasing.
\<close>

theorem frames_in_fault_order:
  assumes "run_addresses raws bs g buf0 = Inr (pm, pt, r)"
  shows "(\<forall>k < length (filter faulted (translation_records r)).
            frame_number (physical (filter faulted (translation_records r) ! k)) = int k) \<and>
         sorted_wrt (<) (map (\<lambda>t. frame_number (physical t))
                           (filter faulted (translation_records r)))"
proof -
  from run_addresses_Inr[OF assms] obtain buf where
    lp: "map_addresses_loop bs (map new_address raws)
       (resize_addresses (create_physical_memory g) (int (length raws)))
       create_page_table buf0 = Inr (pm, pt, buf, translation_records r)"
    by blast
  let ?fs = "filter faulted (translation_records r)"
  have eq: "map (\<lambda>t. frame_number (physical t)) ?fs = map int [0..<length ?fs]"
    using loop_faults[OF lp start_inv] by (simp add: create_page_table_def)
  have a: "\<forall>k < length ?fs. frame_number (physical (?fs ! k)) = int k"
  proof (intro allI impI)
    fix k assume k: "k < length ?fs"
    then have "map (\<lambda>t. frame_number (physical t)) ?fs ! k = map int [0..<length ?fs] ! k"
      using eq by simp
    then show "frame_number (physical (?fs ! k)) = int k" using k by simp
  qed
  have b: "sorted_wrt (<) (map (\<lambda>t. frame_number (physical t)) ?fs)"
    unfolding eq by (simp add: sorted_wrt_map)
  from a b show ?thesis by blast
qed

theorem frames_in_fault_order_witness:
  "\<exists>pm pt r.
     run_addresses [16916, 16917, 5, 16916] example_store zero_bytes zero_bytes = Inr (pm, pt, r) \<and>
     map faulted (translation_records r) = [True, False, True, False] \<and>
     map (\<lambda>t. frame_number (physical t)) (translation_records r) = [0, 0, 1, 0] \<and>
     (\<forall>k < length (filter faulted (translation_records r)).
        frame_number (physical (filter faulted (translation_records r) ! k)) = int k) \<and>
     sorted_wrt (<) (map (\<lambda>t. frame_number (physical t))
                       (filter faulted (translation_records r)))"
proof -
  from example_succeeds obtain pm pt r where
    run: "run_addresses [16916, 16917, 5, 16916] example_store zero_bytes zero_bytes
            = Inr (pm, pt, r)"
    by blast
  have "run_addresses [16916, 16917, 5, 16916] example_store zero_bytes zero_bytes = Inr (pm, pt, r) \<and>
     map faulted (translation_records r) = [True, False, True, False] \<and>
     map (\<lambda>t. frame_number (physical t)) (translation_records r) = [0, 0, 1, 0] \<and>
     (\<forall>k < length (filter faulted (translation_records r)).
        frame_number (physical (filter faulted (translation_records r) ! k)) = int k) \<and>
     sorted_wrt (<) (map (\<lambda>t. frame_number (physical t))
                       (filter faulted (translation_records r)))"
    using run example_run(1,2)[OF run] frames_in_fault_order[OF run]
    by - (elim conjE, intro conjI; assumption)
  then show ?thesis by (intro exI)
qed



text \<open>
  C6, as the code has it. For an input of zero addresses the run emits no translation,
  reports zero page faults, and line 216 divides as for any other input: the dividend is
  0 and the divisor is 0. The code has no case for the empty input.
\<close>

theorem empty_input_report:
  assumes "create_virtual_memory file_input = Inr vm" and "address_count vm = 0"
  shows "main_run file_input bs g buf0 =
     Inr (resize_addresses (create_physical_memory g) 0, create_page_table,
          \<lparr>translation_records = [], page_faults = 0, rate_dividend = 0, rate_divisor = 0\<rparr>)"
  using assms
  by (simp add: main_run_def map_addresses_def Let_def create_page_table_def)

theorem empty_input_report_witness:
  "create_virtual_memory [] = Inr \<lparr>address_count = 0, addresses = []\<rparr> \<and>
   address_count \<lparr>address_count = 0, addresses = []\<rparr> = 0 \<and>
   main_run [] example_store zero_bytes zero_bytes =
     Inr (resize_addresses (create_physical_memory zero_bytes) 0, create_page_table,
          \<lparr>translation_records = [], page_faults = 0, rate_dividend = 0, rate_divisor = 0\<rparr>)"
proof -
  have a: "create_virtual_memory [] = Inr \<lparr>address_count = 0, addresses = []\<rparr>"
    by (simp add: create_virtual_memory_def)
  have b: "address_count \<lparr>address_count = 0, addresses = []\<rparr> = 0" by simp
  from a b empty_input_report[OF a b, of example_store zero_bytes zero_bytes]
  show ?thesis by (intro conjI)
qed

text \<open>
  C6 as stated says the empty input does not lead to a division by zero. On the empty
  input file the divisor of line 216 is 0.
\<close>

theorem empty_input_divides_by_zero_counterexample:
  "main_run [] [] zero_bytes zero_bytes =
     Inr (resize_addresses (create_physical_memory zero_bytes) 0, create_page_table,
          \<lparr>translation_records = [], page_faults = 0, rate_dividend = 0, rate_divisor = 0\<rparr>)"
  by (simp add: main_run_def create_virtual_memory_def map_addresses_def Let_def
      create_page_table_def)

text \<open>
  C7. At the end of every run the fault counter is at most the number of distinct page
  numbers among the addresses, which is at most the address count (the counter that
  line 215 prints is the fault counter, and the divisor of line 216 is the address
  count).
\<close>

theorem fault_accounting:
  assumes "run_addresses raws bs g buf0 = Inr (pm, pt, r)"
  shows "fault_count pt \<le> int (card (set (map (\<lambda>a. page_number (new_address a)) raws))) \<and>
         int (card (set (map (\<lambda>a. page_number (new_address a)) raws)))
           \<le> address_count (virtual_memory_of raws) \<and>
         page_faults r = fault_count pt \<and>
         rate_divisor r = address_count (virtual_memory_of raws)"
proof -
  from run_addresses_Inr[OF assms] obtain buf where
    lp: "map_addresses_loop bs (map new_address raws)
       (resize_addresses (create_physical_memory g) (int (length raws)))
       create_page_table buf0 = Inr (pm, pt, buf, translation_records r)"
    and pf: "page_faults r = fault_count pt"
    and rd: "rate_divisor r = int (length raws)"
    by blast
  let ?pages = "set (map (\<lambda>a. page_number (new_address a)) raws)"
  from loop_pages[OF lp start_inv]
  have m: "mapped pt = nat ` ?pages"
    and rg: "\<forall>p \<in> ?pages. 0 \<le> p"
    by (auto simp: mapped_start image_image)
  have "inj_on nat ?pages"
    using rg by (auto simp: inj_on_def eq_nat_nat_iff)
  then have c: "card (mapped pt) = card ?pages"
    unfolding m by (rule card_image)
  have "fault_count pt = int (card (mapped pt))"
    using loop_inv[OF lp start_inv] by (simp add: table_inv_def)
  then have a: "fault_count pt \<le> int (card ?pages)" using c by simp
  have "card ?pages \<le> length (map (\<lambda>a. page_number (new_address a)) raws)"
    by (rule card_length)
  then have b: "int (card ?pages) \<le> address_count (virtual_memory_of raws)"
    by (simp add: virtual_memory_of_def)
  show ?thesis using a b pf rd by (simp add: virtual_memory_of_def)
qed

theorem fault_accounting_witness:
  "\<exists>pm pt r.
     run_addresses [16916, 16917, 5, 16916] example_store zero_bytes zero_bytes = Inr (pm, pt, r) \<and>
     fault_count pt = 2 \<and>
     card (set (map (\<lambda>a. page_number (new_address a)) [16916, 16917, 5, 16916])) = 2 \<and>
     address_count (virtual_memory_of [16916, 16917, 5, 16916]) = 4 \<and>
     fault_count pt
       \<le> int (card (set (map (\<lambda>a. page_number (new_address a)) [16916, 16917, 5, 16916]))) \<and>
     int (card (set (map (\<lambda>a. page_number (new_address a)) [16916, 16917, 5, 16916])))
       \<le> address_count (virtual_memory_of [16916, 16917, 5, 16916]) \<and>
     page_faults r = fault_count pt \<and>
     rate_divisor r = address_count (virtual_memory_of [16916, 16917, 5, 16916])"
proof -
  from example_succeeds obtain pm pt r where
    run: "run_addresses [16916, 16917, 5, 16916] example_store zero_bytes zero_bytes
            = Inr (pm, pt, r)"
    by blast
  have c: "card (set (map (\<lambda>a. page_number (new_address a)) [16916, 16917, 5, 16916])) = 2"
    by (simp add: new_address_def drop_bit_eq_div card_insert_if)
  have d: "address_count (virtual_memory_of [16916, 16917, 5, 16916]) = 4"
    by (simp add: virtual_memory_of_def)
  have "run_addresses [16916, 16917, 5, 16916] example_store zero_bytes zero_bytes = Inr (pm, pt, r) \<and>
     fault_count pt = 2 \<and>
     card (set (map (\<lambda>a. page_number (new_address a)) [16916, 16917, 5, 16916])) = 2 \<and>
     address_count (virtual_memory_of [16916, 16917, 5, 16916]) = 4 \<and>
     fault_count pt
       \<le> int (card (set (map (\<lambda>a. page_number (new_address a)) [16916, 16917, 5, 16916]))) \<and>
     int (card (set (map (\<lambda>a. page_number (new_address a)) [16916, 16917, 5, 16916])))
       \<le> address_count (virtual_memory_of [16916, 16917, 5, 16916]) \<and>
     page_faults r = fault_count pt \<and>
     rate_divisor r = address_count (virtual_memory_of [16916, 16917, 5, 16916])"
    using run example_run(4)[OF run] c d fault_accounting[OF run]
    by - (elim conjE, intro conjI; assumption)
  then show ?thesis by (intro exI)
qed

text \<open>
  C8. An input address 16916 has page number 66 and page offset 20. If no earlier
  address has page 66 the pass faults and its frame is the allocator's next frame, the
  number of faults before it (0 if no pass before it faulted). The physical address
  is the frame number times 256 plus 20, and where the backing store holds byte 20 of
  page 66, the value is that byte.
\<close>

theorem address_16916:
  assumes run: "run_addresses raws bs g buf0 = Inr (pm, pt, r)"
    and i: "i < length raws"
    and a: "raws ! i = 16916"
  shows "page_number (virtual (translation_records r ! i)) = 66 \<and>
         page_offset (virtual (translation_records r ! i)) = 20 \<and>
         ((\<forall>k<i. page_number (new_address (raws ! k)) \<noteq> 66) \<longrightarrow>
            faulted (translation_records r ! i) \<and>
            frame_number (physical (translation_records r ! i)) =
              int (length (filter faulted (take i (translation_records r)))) \<and>
            (\<exists>pm1 pt1 buf1.
               state_after i raws bs g buf0 = Inr (pm1, pt1, buf1, take i (translation_records r)) \<and>
               frame_number (physical (translation_records r ! i)) = fst (allocate_frame pm1))) \<and>
         ((\<forall>k<i. \<not> faulted (translation_records r ! k)) \<longrightarrow>
            faulted (translation_records r ! i) \<and>
            frame_number (physical (translation_records r ! i)) = 0) \<and>
         pa_address (physical (translation_records r ! i)) =
           frame_number (physical (translation_records r ! i)) * 256 + 20 \<and>
         (66 * 256 + 20 < length bs \<longrightarrow>
            pa_value (physical (translation_records r ! i)) = bs ! (66 * 256 + 20) \<and>
            output_line (translation_records r ! i) =
              (16916, frame_number (physical (translation_records r ! i)) * 256 + 20,
               sint (bs ! (66 * 256 + 20))))"
proof -
  let ?ts = "translation_records r"
  let ?t = "?ts ! i"
  have dec: "page_number (new_address 16916) = 66" "page_offset (new_address 16916) = 20"
    by (simp_all add: new_address_def drop_bit_eq_div and255_mod)
  note rec = run_record[OF run i, unfolded a]
  have 1: "page_number (virtual ?t) = 66" "page_offset (virtual ?t) = 20"
    using rec(1) dec by simp_all
  have 4: "pa_address (physical ?t) = frame_number (physical ?t) * 256 + 20"
    using rec(3) dec by simp
  obtain pm1 pt1 buf1 pm2 pt2 buf2 bufx where
    sa: "state_after i raws bs g buf0 = Inr (pm1, pt1, buf1, take i ?ts)" and
    b: "translate bs (new_address (raws ! i)) pm1 pt1 buf1 = Inr (pm2, pt2, buf2, ?t)" and
    c: "state_after (Suc i) raws bs g buf0 = Inr (pm2, pt2, buf2, take (Suc i) ?ts)" and
    d: "map_addresses_loop bs (drop (Suc i) (map new_address raws)) pm2 pt2 buf2 =
       Inr (pm, pt, bufx, drop (Suc i) ?ts)"
    by (rule run_index[OF run i])
  note inv1 = state_after_inv(1)[OF sa]
  note fc1 = state_after_inv(4)[OF sa]
  have fault: "faulted ?t \<Longrightarrow>
      frame_number (physical ?t) = int (length (filter faulted (take i ?ts))) \<and>
      frame_number (physical ?t) = fst (allocate_frame pm1)"
  proof -
    assume f: "faulted ?t"
    have un: "nat (page_number (new_address (raws ! i))) \<notin> mapped pt1"
      using hitD(3)[OF b inv1] f by blast
    note fd = faultD[OF b inv1 un]
    have fr: "frame_number (physical ?t) = fault_count pt1"
      using fd(6) by (simp add: new_physical_address_def)
    have nx: "next_available_frame_index pm1 = word_of_int (fault_count pt1)"
      using inv1 by (simp add: table_inv_def)
    have "0 \<le> fault_count pt1" using fc1 by simp
    then have "uint (next_available_frame_index pm1) = fault_count pt1"
      unfolding nx using fd(3) by (simp add: uint_word_of_int take_bit_eq_mod)
    then show ?thesis using fr fc1 by (simp add: allocate_frame_def)
  qed
  have 2: "(\<forall>k<i. page_number (new_address (raws ! k)) \<noteq> 66) \<longrightarrow>
            faulted ?t \<and>
            frame_number (physical ?t) = int (length (filter faulted (take i ?ts))) \<and>
            (\<exists>pm1 pt1 buf1.
               state_after i raws bs g buf0 = Inr (pm1, pt1, buf1, take i ?ts) \<and>
               frame_number (physical ?t) = fst (allocate_frame pm1))"
  proof
    assume "\<forall>k<i. page_number (new_address (raws ! k)) \<noteq> 66"
    then have f: "faulted ?t" using run_fault_iff[OF run i] a dec by simp
    from fault[OF f] sa f show "faulted ?t \<and>
            frame_number (physical ?t) = int (length (filter faulted (take i ?ts))) \<and>
            (\<exists>pm1 pt1 buf1.
               state_after i raws bs g buf0 = Inr (pm1, pt1, buf1, take i ?ts) \<and>
               frame_number (physical ?t) = fst (allocate_frame pm1))"
      by blast
  qed
  have tk: "length (take i ?ts) = i" using state_after_inv(5)[OF sa] i by simp
  have 3: "(\<forall>k<i. \<not> faulted (?ts ! k)) \<longrightarrow> faulted ?t \<and> frame_number (physical ?t) = 0"
  proof
    assume nf: "\<forall>k<i. \<not> faulted (?ts ! k)"
    have none: "filter faulted (take i ?ts) = []"
    proof -
      have "\<forall>t \<in> set (take i ?ts). \<not> faulted t"
      proof
        fix t assume "t \<in> set (take i ?ts)"
        then obtain k where "k < length (take i ?ts)" "take i ?ts ! k = t"
          unfolding in_set_conv_nth by blast
        then have "k < i" "?ts ! k = t" using tk by simp_all
        then show "\<not> faulted t" using nf by blast
      qed
      then show ?thesis by (simp add: filter_empty_conv)
    qed
    have "fault_count pt1 = 0" using fc1 none by simp
    then have "mapped pt1 = {}"
      using inv1 by (simp add: table_inv_def finite_mapped)
    then have un: "nat (page_number (new_address (raws ! i))) \<notin> mapped pt1" by simp
    have f: "faulted ?t" by (rule faultD(4)[OF b inv1 un])
    from fault[OF f] none f show "faulted ?t \<and> frame_number (physical ?t) = 0" by simp
  qed
  have 5: "66 * 256 + 20 < length bs \<longrightarrow>
            pa_value (physical ?t) = bs ! (66 * 256 + 20) \<and>
            output_line ?t = (16916, frame_number (physical ?t) * 256 + 20,
                               sint (bs ! (66 * 256 + 20)))"
  proof
    assume l: "66 * 256 + 20 < length bs"
    from run_value[OF run i] obtain i' pm' pt' buf' where
      v: "pa_value (physical ?t) =
            fread bs (nat (page_number (new_address (raws ! i)) * 256)) buf'
              (nat (page_offset (new_address (raws ! i))))"
      by blast
    have "pa_value (physical ?t) = bs ! nat 16916"
      unfolding v a by (rule fread_byte) (use l in simp_all)
    then have pv: "pa_value (physical ?t) = bs ! (66 * 256 + 20)" by simp
    then show "pa_value (physical ?t) = bs ! (66 * 256 + 20) \<and>
            output_line ?t = (16916, frame_number (physical ?t) * 256 + 20,
                               sint (bs ! (66 * 256 + 20)))"
      using rec(1) 4 by (simp add: output_line_def new_address_def)
  qed
  from 1 2 3 4 5 show ?thesis by (intro conjI)
qed

theorem address_16916_witness:
  "\<exists>pm pt r.
     run_addresses [16916, 16917, 5, 16916] example_store zero_bytes zero_bytes = Inr (pm, pt, r) \<and>
     (0::nat) < length [16916, 16917, 5, 16916::int] \<and>
     [16916, 16917, 5, 16916::int] ! 0 = 16916 \<and>
     66 * 256 + 20 < length example_store \<and>
     faulted (translation_records r ! 0) \<and>
     frame_number (physical (translation_records r ! 0)) = 0 \<and>
     pa_address (physical (translation_records r ! 0)) = 20 \<and>
     output_line (translation_records r ! 0) = (16916, 20, 42)"
proof -
  from example_succeeds obtain pm pt r where
    run: "run_addresses [16916, 16917, 5, 16916] example_store zero_bytes zero_bytes
            = Inr (pm, pt, r)"
    by blast
  have i: "(0::nat) < length [16916, 16917, 5, 16916::int]" by simp
  have a: "[16916, 16917, 5, 16916::int] ! 0 = 16916" by simp
  have l: "66 * 256 + 20 < length example_store" by (simp add: example_store_byte(1))
  note T = address_16916[OF run i a]
  have t3: "faulted (translation_records r ! 0) \<and>
            frame_number (physical (translation_records r ! 0)) = 0"
    using T[THEN conjunct2, THEN conjunct2, THEN conjunct2, THEN conjunct1] by simp
  have t4: "pa_address (physical (translation_records r ! 0)) = 20"
    using T[THEN conjunct2, THEN conjunct2, THEN conjunct2, THEN conjunct2, THEN conjunct1] t3
    by simp
  have t5: "output_line (translation_records r ! 0) = (16916, 20, 42)"
    using T[THEN conjunct2, THEN conjunct2, THEN conjunct2, THEN conjunct2, THEN conjunct2] l t3
      example_store_byte(2)
    by simp
  have "run_addresses [16916, 16917, 5, 16916] example_store zero_bytes zero_bytes = Inr (pm, pt, r) \<and>
     (0::nat) < length [16916, 16917, 5, 16916::int] \<and>
     [16916, 16917, 5, 16916::int] ! 0 = 16916 \<and>
     66 * 256 + 20 < length example_store \<and>
     faulted (translation_records r ! 0) \<and>
     frame_number (physical (translation_records r ! 0)) = 0 \<and>
     pa_address (physical (translation_records r ! 0)) = 20 \<and>
     output_line (translation_records r ! 0) = (16916, 20, 42)"
    using run i a l t3 t4 t5
    by - (elim conjE, intro conjI; assumption)
  then show ?thesis by (intro exI)
qed

text \<open>
  C9. A last line that no newline ends gives no address: the virtual memory, and so
  the whole run, is the same with and without such a tail, and an input without any
  newline gives zero addresses. The addresses are as many as the newlines read.
\<close>

theorem unterminated_last_line_dropped:
  assumes "CHR 0x0A \<notin> set t"
  shows "create_virtual_memory (s @ t) = create_virtual_memory s \<and>
         main_run (s @ t) bs g buf0 = main_run s bs g buf0 \<and>
         create_virtual_memory t = Inr \<lparr>address_count = 0, addresses = []\<rparr> \<and>
         (\<forall>vm. create_virtual_memory (s @ t) = Inr vm \<longrightarrow>
            address_count vm = int (count_list (takeWhile (\<lambda>c. c \<noteq> CHR 0xFF) s) (CHR 0x0A)) \<and>
            length (addresses vm) = count_list (takeWhile (\<lambda>c. c \<noteq> CHR 0xFF) s) (CHR 0x0A))"
proof -
  have 1: "create_virtual_memory (s @ t) = create_virtual_memory s"
    unfolding create_virtual_memory_def by (rule read_lines_append[OF assms])
  have 2: "main_run (s @ t) bs g buf0 = main_run s bs g buf0"
    unfolding main_run_def 1 by (rule refl)
  have 3: "create_virtual_memory t = Inr \<lparr>address_count = 0, addresses = []\<rparr>"
    unfolding create_virtual_memory_def by (rule read_lines_no_newline[OF assms])
  have 4: "\<forall>vm. create_virtual_memory (s @ t) = Inr vm \<longrightarrow>
            address_count vm = int (count_list (takeWhile (\<lambda>c. c \<noteq> CHR 0xFF) s) (CHR 0x0A)) \<and>
            length (addresses vm) = count_list (takeWhile (\<lambda>c. c \<noteq> CHR 0xFF) s) (CHR 0x0A)"
  proof (intro allI impI)
    fix vm assume "create_virtual_memory (s @ t) = Inr vm"
    then have "read_lines s [] \<lparr>address_count = 0, addresses = []\<rparr> = Inr vm"
      unfolding 1 by (simp add: create_virtual_memory_def)
    from read_lines_count[OF this]
    show "address_count vm = int (count_list (takeWhile (\<lambda>c. c \<noteq> CHR 0xFF) s) (CHR 0x0A)) \<and>
          length (addresses vm) = count_list (takeWhile (\<lambda>c. c \<noteq> CHR 0xFF) s) (CHR 0x0A)"
      by simp
  qed
  from 1 2 3 4 show ?thesis by (intro conjI)
qed

theorem unterminated_last_line_dropped_witness:
  "CHR 0x0A \<notin> set ''30198'' \<and>
   create_virtual_memory (''16916'' @ [CHR 0x0A] @ ''62493'' @ [CHR 0x0A] @ ''30198'') =
     Inr \<lparr>address_count = 2, addresses = [new_address 16916, new_address 62493]\<rparr> \<and>
   create_virtual_memory ''30198'' = Inr \<lparr>address_count = 0, addresses = []\<rparr>"
proof -
  have h: "CHR 0x0A \<notin> set ''30198''" by simp
  note T = unterminated_last_line_dropped[OF h, of "''16916'' @ [CHR 0x0A] @ ''62493'' @ [CHR 0x0A]"]
  have a: "create_virtual_memory ((''16916'' @ [CHR 0x0A] @ ''62493'' @ [CHR 0x0A]) @ ''30198'') =
             create_virtual_memory (''16916'' @ [CHR 0x0A] @ ''62493'' @ [CHR 0x0A])"
    by (rule T[THEN conjunct1])
  have b: "create_virtual_memory ''30198'' = Inr \<lparr>address_count = 0, addresses = []\<rparr>"
    by (rule T[THEN conjunct2, THEN conjunct2, THEN conjunct1])
  have "create_virtual_memory (''16916'' @ [CHR 0x0A] @ ''62493'' @ [CHR 0x0A] @ ''30198'') =
     Inr \<lparr>address_count = 2, addresses = [new_address 16916, new_address 62493]\<rparr>"
    using a ex_parse by simp
  with h b show ?thesis by (intro conjI)
qed

text \<open>
  C10. When every input address lies in [0, 65536) the run returns a result, so no
  access to the byte array of the physical memory left [0, PHYSICAL_MEMORY_SIZE) (an
  access outside is the error \<open>SpaceIndexOutOfBounds\<close> of \<open>space_read\<close> and
  \<open>space_write\<close>): every frame number is in [0, 256) and every frame offset is in
  [0, 256). The allocator's frame is the value of an 8-bit counter, which is in [0, 256)
  and wraps modulo 256 when incremented, and the page offset is the address masked
  with 255.
\<close>

theorem physical_memory_accesses_in_range:
  assumes "\<forall>a \<in> set raws. 0 \<le> a \<and> a < PAGE_TABLE_SIZE * PAGE_SIZE"
  shows "(\<exists>pm pt r. run_addresses raws bs g buf0 = Inr (pm, pt, r) \<and>
           (\<forall>t \<in> set (translation_records r).
              0 \<le> frame_number (physical t) \<and> frame_number (physical t) < 256 \<and>
              0 \<le> frame_offset (physical t) \<and> frame_offset (physical t) < 256 \<and>
              0 \<le> frame_offset (physical t) + frame_number (physical t) * PAGE_SIZE \<and>
              frame_offset (physical t) + frame_number (physical t) * PAGE_SIZE
                < PHYSICAL_MEMORY_SIZE)) \<and>
         0 \<le> fst (allocate_frame pm0) \<and> fst (allocate_frame pm0) < 256 \<and>
         uint (next_available_frame_index (snd (allocate_frame pm0)))
           = (uint (next_available_frame_index pm0) + 1) mod 256 \<and>
         0 \<le> page_offset (new_address a0) \<and> page_offset (new_address a0) < 256"
proof -
  from assms have "\<forall>a \<in> set raws. 0 \<le> a \<and> a < 65536" by simp
  from run_addresses_succeeds[OF this, of bs g buf0] obtain pm pt r where
    run: "run_addresses raws bs g buf0 = Inr (pm, pt, r)" by blast
  from run_addresses_Inr[OF run] obtain buf where
    lp: "map_addresses_loop bs (map new_address raws)
       (resize_addresses (create_physical_memory g) (int (length raws)))
       create_page_table buf0 = Inr (pm, pt, buf, translation_records r)"
    by blast
  note rec = loop_records[OF lp start_inv]
  have 1: "\<forall>t \<in> set (translation_records r).
              0 \<le> frame_number (physical t) \<and> frame_number (physical t) < 256 \<and>
              0 \<le> frame_offset (physical t) \<and> frame_offset (physical t) < 256 \<and>
              0 \<le> frame_offset (physical t) + frame_number (physical t) * PAGE_SIZE \<and>
              frame_offset (physical t) + frame_number (physical t) * PAGE_SIZE
                < PHYSICAL_MEMORY_SIZE"
  proof
    fix t assume t: "t \<in> set (translation_records r)"
    with rec have v: "virtual t \<in> set (map new_address raws)"
      and o: "frame_offset (physical t) = page_offset (virtual t)"
      and f: "0 \<le> frame_number (physical t)" "frame_number (physical t) < 256"
        "0 \<le> frame_offset (physical t) + frame_number (physical t) * 256"
        "frame_offset (physical t) + frame_number (physical t) * 256 < 65536"
      by blast+
    from v obtain a where "virtual t = new_address a" by auto
    then have "0 \<le> frame_offset (physical t)" "frame_offset (physical t) < 256"
      using o new_address_offset_range[of a] by simp_all
    then show "0 \<le> frame_number (physical t) \<and> frame_number (physical t) < 256 \<and>
              0 \<le> frame_offset (physical t) \<and> frame_offset (physical t) < 256 \<and>
              0 \<le> frame_offset (physical t) + frame_number (physical t) * PAGE_SIZE \<and>
              frame_offset (physical t) + frame_number (physical t) * PAGE_SIZE
                < PHYSICAL_MEMORY_SIZE"
      using f by simp
  qed
  have 2: "0 \<le> fst (allocate_frame pm0)" "fst (allocate_frame pm0) < 256"
    using uint_lt2p[of "next_available_frame_index pm0"] by (simp_all add: allocate_frame_def)
  have 3: "uint (next_available_frame_index (snd (allocate_frame pm0)))
           = (uint (next_available_frame_index pm0) + 1) mod 256"
    by (simp add: allocate_frame_def uint_word_ariths)
  have 4: "0 \<le> page_offset (new_address a0)" "page_offset (new_address a0) < 256"
    by (rule new_address_offset_range)+
  from run 1 2 3 4 show ?thesis by blast
qed

theorem physical_memory_accesses_in_range_witness:
  "list_all (\<lambda>a. (0::int) \<le> a \<and> a < PAGE_TABLE_SIZE * PAGE_SIZE) [16916, 16917, 5, 16916] \<and>
   (\<exists>pm pt r.
      run_addresses [16916, 16917, 5, 16916] example_store zero_bytes zero_bytes = Inr (pm, pt, r) \<and>
      (\<forall>t \<in> set (translation_records r).
         0 \<le> frame_number (physical t) \<and> frame_number (physical t) < 256 \<and>
         0 \<le> frame_offset (physical t) \<and> frame_offset (physical t) < 256 \<and>
         0 \<le> frame_offset (physical t) + frame_number (physical t) * PAGE_SIZE \<and>
         frame_offset (physical t) + frame_number (physical t) * PAGE_SIZE
           < PHYSICAL_MEMORY_SIZE))"
proof -
  have h: "\<forall>a \<in> set [16916, 16917, 5, 16916]. (0::int) \<le> a \<and> a < PAGE_TABLE_SIZE * PAGE_SIZE"
    by simp
  from physical_memory_accesses_in_range[OF h, of example_store zero_bytes zero_bytes]
  have "\<exists>pm pt r.
      run_addresses [16916, 16917, 5, 16916] example_store zero_bytes zero_bytes = Inr (pm, pt, r) \<and>
      (\<forall>t \<in> set (translation_records r).
         0 \<le> frame_number (physical t) \<and> frame_number (physical t) < 256 \<and>
         0 \<le> frame_offset (physical t) \<and> frame_offset (physical t) < 256 \<and>
         0 \<le> frame_offset (physical t) + frame_number (physical t) * PAGE_SIZE \<and>
         frame_offset (physical t) + frame_number (physical t) * PAGE_SIZE
           < PHYSICAL_MEMORY_SIZE)"
    by (rule conjunct1)
  moreover have "list_all (\<lambda>a. (0::int) \<le> a \<and> a < PAGE_TABLE_SIZE * PAGE_SIZE)
                   [16916, 16917, 5, 16916]"
    by simp
  ultimately show ?thesis by (intro conjI)
qed

end
